theory Spec2Isabelle
  imports Main
begin

section \<open>The skiptrap commit-log checker (software/skiptrap/check_skiptrap.py)\<close>

text \<open>
  Python integers are unbounded and are modelled as \<open>int\<close>; list positions are \<open>nat\<close>.
  A Python string is a \<open>string\<close>; a \<open>char\<close> stands for a code point below 256.
  Dictionaries with string keys in the source are records here; their fields carry a
  prefix because the same key (\<open>pc\<close>, \<open>rd\<close>, \<open>val\<close>) occurs in several of them.
\<close>

subsection \<open>Text helpers used by the disassembly scan\<close>

text \<open>
  White space as \<open>str.isspace\<close>, \<open>str.strip\<close> and the pattern \<open>\s\<close> see it:
  code points 9 to 13, 28 to 32, 133 and 160.
\<close>

definition is_space :: "char \<Rightarrow> bool" where
  "is_space c \<longleftrightarrow>
     (let n = (of_char c :: nat)
      in (9 \<le> n \<and> n \<le> 13) \<or> (28 \<le> n \<and> n \<le> 32) \<or> n = 133 \<or> n = 160)"

text \<open>The character class \<open>[0-9a-fA-F]\<close>.\<close>

definition is_hex :: "char \<Rightarrow> bool" where
  "is_hex c \<longleftrightarrow>
     (let n = (of_char c :: nat)
      in (48 \<le> n \<and> n \<le> 57) \<or> (97 \<le> n \<and> n \<le> 102) \<or> (65 \<le> n \<and> n \<le> 70))"

text \<open>The character class \<open>[0-9a-fA-F ]\<close> of the raw-bytes column.\<close>

definition is_hex_or_blank :: "char \<Rightarrow> bool" where
  "is_hex_or_blank c \<longleftrightarrow> is_hex c \<or> c = CHR '' ''"

text \<open>The character class \<open>[a-z0-9\.]\<close> of a mnemonic.\<close>

definition is_mnem_char :: "char \<Rightarrow> bool" where
  "is_mnem_char c \<longleftrightarrow>
     (let n = (of_char c :: nat)
      in (97 \<le> n \<and> n \<le> 122) \<or> (48 \<le> n \<and> n \<le> 57) \<or> n = 46)"

text \<open>The class \<open>[^>]\<close>, and \<open>.\<close> (anything but a line feed).\<close>

definition not_gt :: "char \<Rightarrow> bool" where
  "not_gt c \<longleftrightarrow> c \<noteq> CHR ''>''"

definition not_newline :: "char \<Rightarrow> bool" where
  "not_newline c \<longleftrightarrow> c \<noteq> CHR 0x0A"

text \<open>\<open>str.strip()\<close>: white space removed at both ends.\<close>

definition strip :: "string \<Rightarrow> string" where
  "strip s = rev (dropWhile is_space (rev (dropWhile is_space s)))"

text \<open>\<open>str.split(",")\<close>: the pieces between the separators; never an empty list.\<close>

fun split_on :: "char \<Rightarrow> string \<Rightarrow> string list" where
  "split_on sep [] = [[]]"
| "split_on sep (c # cs) =
     (if c = sep then [] # split_on sep cs
      else (case split_on sep cs of
              [] \<Rightarrow> [[c]]
            | piece # pieces \<Rightarrow> (c # piece) # pieces))"

text \<open>\<open>int(s, 16)\<close> on a string of hexadecimal digits, most significant digit first.\<close>

definition hex_digit :: "char \<Rightarrow> int" where
  "hex_digit c =
     (let n = (of_char c :: nat)
      in if 48 \<le> n \<and> n \<le> 57 then int n - 48
         else if 97 \<le> n \<and> n \<le> 102 then int n - 87
         else int n - 55)"

definition int_of_hex :: "string \<Rightarrow> int" where
  "int_of_hex s = foldl (\<lambda>acc c. 16 * acc + hex_digit c) 0 s"

text \<open>The decimal rendering of an integer, as the f-string \<open>f"x{rd_num}"\<close> does it.\<close>

fun str_nat :: "nat \<Rightarrow> string" where
  "str_nat n =
     (if n < 10 then [char_of (48 + n)]
      else str_nat (n div 10) @ [char_of (48 + n mod 10)])"

definition str_int :: "int \<Rightarrow> string" where
  "str_int i = (if i < 0 then CHR ''-'' # str_nat (nat (- i)) else str_nat (nat i))"

subsection \<open>The three patterns of the scan\<close>

text \<open>
  The patterns of \<open>parse_objdump_for_final_reg_pc\<close> are sequences of single characters,
  greedy repetitions of a character class (\<open>*\<close> is a repetition of at least 0, \<open>+\<close> of at
  least 1; a flag says whether the repetition is a capture group) and the anchor \<open>$\<close>.
  \<open>rematch\<close> is \<open>re.match\<close> on such a pattern: it starts at the first character, tries the
  longest repetition first and gives characters back one at a time, and returns the
  capture groups of the first way that matches.
\<close>

datatype item = Lit char | Rep "char \<Rightarrow> bool" nat bool | Eol

function rematch :: "item list \<Rightarrow> string \<Rightarrow> string list option"
  and backtrack :: "item list \<Rightarrow> bool \<Rightarrow> nat \<Rightarrow> string \<Rightarrow> nat \<Rightarrow> string list option"
  where
  "rematch [] s = Some []"
| "rematch (Lit c # r) s =
     (case s of [] \<Rightarrow> None | x # xs \<Rightarrow> if x = c then rematch r xs else None)"
| "rematch (Eol # r) s =
     (if s = [] \<or> s = [CHR 0x0A] then rematch r s else None)"
| "rematch (Rep cls least cap # r) s =
     backtrack r cap least s (length (takeWhile cls s))"
| "backtrack r cap least s k =
     (if k < least then None
      else (case rematch r (drop k s) of
              Some groups \<Rightarrow> Some (if cap then take k s # groups else groups)
            | None \<Rightarrow> if k = 0 then None else backtrack r cap least s (k - 1)))"
  by pat_completeness auto
termination
  by (relation "inv_image (less_than <*lex*> less_than)
        (\<lambda>x. case x of
               Inl (items, s) \<Rightarrow> (2 * length items, 0)
             | Inr (r, cap, least, s, k) \<Rightarrow> (2 * length r + 1, k))") auto

text \<open>\<open>^\s*([0-9a-fA-F]+)\s+<LABEL>:\<close>, the label escaped so that it matches literally.\<close>

definition label_re :: "string \<Rightarrow> string \<Rightarrow> string list option" where
  "label_re label line =
     rematch ([Rep is_space 0 False, Rep is_hex 1 True, Rep is_space 1 False, Lit CHR ''<'']
              @ map Lit label @ [Lit CHR ''>'', Lit CHR '':'']) line"

text \<open>\<open>^\s*[0-9a-fA-F]+\s+<[^>]+>:\<close>\<close>

definition next_label_re :: "string \<Rightarrow> string list option" where
  "next_label_re line =
     rematch [Rep is_space 0 False, Rep is_hex 1 False, Rep is_space 1 False, Lit CHR ''<'',
              Rep not_gt 1 False, Lit CHR ''>'', Lit CHR '':''] line"

text \<open>\<open>^\s*([0-9a-fA-F]+):\s+[0-9a-fA-F ]+\s+\t([a-z0-9\.]+)\s+(.*)$\<close>\<close>

definition insn_re :: "string \<Rightarrow> string list option" where
  "insn_re line =
     rematch [Rep is_space 0 False, Rep is_hex 1 True, Lit CHR '':'', Rep is_space 1 False,
              Rep is_hex_or_blank 1 False, Rep is_space 1 False, Lit CHR 0x09,
              Rep is_mnem_char 1 True, Rep is_space 1 False, Rep not_newline 0 True, Eol] line"

subsection \<open>parse_objdump_for_final_reg_pc\<close>

definition write_mnems :: "string list" where
  "write_mnems =
     [''addi'', ''add'', ''sub'', ''lui'', ''ori'', ''xori'', ''andi'',
      ''slli'', ''srli'', ''srai'', ''auipc'', ''and'', ''or'', ''xor'',
      ''sll'', ''srl'', ''sra'', ''slti'', ''sltiu'', ''slt'', ''sltu'',
      ''jal'', ''jalr'', ''csrrw'', ''csrrs'', ''csrrc'', ''csrrwi'', ''csrrsi'', ''csrrci'',
      ''li'']"

definition excluded_mnems :: "string list" where
  "excluded_mnems =
     [''sb'', ''sh'', ''sw'', ''beq'', ''bne'', ''blt'', ''bge'', ''bltu'', ''bgeu'']"

definition abi_map :: "int \<Rightarrow> string option" where
  "abi_map n =
     (if n = 5 then Some ''t0'' else if n = 6 then Some ''t1''
      else if n = 7 then Some ''t2'' else if n = 28 then Some ''t3'' else None)"

text \<open>
  Lines 113 to 120: the test made on a matched instruction line, from its mnemonic and
  its operand text.
\<close>

definition writes_reg :: "int \<Rightarrow> string \<Rightarrow> string \<Rightarrow> bool" where
  "writes_reg rd_num mnem ops_str =
     (case filter (\<lambda>piece. piece \<noteq> []) (map strip (split_on CHR '','' ops_str)) of
        [] \<Rightarrow> False
      | op0 # _ \<Rightarrow>
          (let ok_rd = (op0 = CHR ''x'' # str_int rd_num \<or> abi_map rd_num = Some op0)
           in ok_rd \<and> mnem \<notin> set excluded_mnems
              \<and> (mnem \<in> set write_mnems \<or> take 2 mnem = ''c.'')))"

text \<open>
  Lines 107 to 121, the body of the loop on one line of the block: the pc the line
  assigns to \<open>last_pc\<close>, if it assigns one.
\<close>

definition line_write :: "int \<Rightarrow> string \<Rightarrow> int option" where
  "line_write rd_num line =
     (case insn_re line of
        Some [pc_hex, mnem, ops_str] \<Rightarrow>
          if writes_reg rd_num mnem ops_str then Some (int_of_hex pc_hex) else None
      | _ \<Rightarrow> None)"

text \<open>Lines 96 to 99: the index after the first line that introduces the label.\<close>

fun find_label :: "string \<Rightarrow> string list \<Rightarrow> nat \<Rightarrow> nat option" where
  "find_label label [] i = None"
| "find_label label (line # rest) i =
     (if label_re label line \<noteq> None then Some (i + 1) else find_label label rest (i + 1))"

text \<open>Lines 104 to 122: the loop over the lines from \<open>start\<close> on.\<close>

fun scan_block :: "int \<Rightarrow> string list \<Rightarrow> int option \<Rightarrow> int option" where
  "scan_block rd_num [] last_pc = last_pc"
| "scan_block rd_num (line # rest) last_pc =
     (if next_label_re line \<noteq> None then last_pc
      else scan_block rd_num rest
             (case line_write rd_num line of Some pc \<Rightarrow> Some pc | None \<Rightarrow> last_pc))"

text \<open>
  The listing is \<open>None\<close> when the file does not exist, and otherwise the list that
  \<open>readlines\<close> returns.
\<close>

definition parse_objdump_for_final_reg_pc ::
  "string list option \<Rightarrow> string \<Rightarrow> int \<Rightarrow> int option" where
  "parse_objdump_for_final_reg_pc objdump label rd_num =
     (case objdump of
        None \<Rightarrow> None
      | Some lines \<Rightarrow>
          (case find_label label lines 0 of
             None \<Rightarrow> None
           | Some start \<Rightarrow> scan_block rd_num (drop start lines) None))"

subsection \<open>Events and errors\<close>

text \<open>
  A memory-write event \<open>{"pc", "addr", "data", "mask"}\<close> of \<open>parse_memw\<close>, a register-write
  event \<open>{"pc", "rd", "val"}\<close> of \<open>parse_reg\<close>, an entry of \<open>EXP\<close> (its \<open>pc\<close> is \<open>None\<close> when
  \<open>syms.get\<close> found no symbol) and an entry of \<open>REG_EXP\<close>.
\<close>

record memw =
  m_pc :: int
  m_addr :: int
  m_data :: int
  m_mask :: int

record regw =
  r_pc :: int
  r_rd :: int
  r_val :: int

record expected =
  e_pc :: "int option"
  e_addr :: int
  e_data :: int
  e_mask :: int

record reg_exp =
  x_label :: string
  x_rd :: int
  x_val :: int

text \<open>
  The messages appended to \<open>errors\<close>, one constructor for each f-string of \<open>main\<close>, with
  the values the f-string interpolates.
\<close>

datatype err =
    SymbolPCNotFound expected
  | MissingWrite int int int int
  | OrderMismatch nat nat
  | ExtraWrite nat
  | UnexpectedMEMW
  | ObjdumpPCNotFound string
  | MissingREG int int int string

text \<open>
  How a run of \<open>main\<close> ends: a \<open>KeyError\<close> (on a symbol name or on an index of
  \<open>positions\<close>), the runner's non-zero return code, return code 1 with the printed
  errors, or return code 0.
\<close>

datatype key = SymKey string | PosKey nat

datatype outcome = KeyError key | RunnerFailed int | Fail "err list" | Pass

subsection \<open>Skew-tolerant matching (lines 191 to 208)\<close>

text \<open>The condition of the generator on lines 198 to 200, for the expected pc \<open>p\<close>.\<close>

definition hit :: "expected \<Rightarrow> int \<Rightarrow> int \<Rightarrow> memw \<Rightarrow> bool" where
  "hit e p off w \<longleftrightarrow>
     m_pc w = p + off \<and> m_addr w = e_addr e \<and> m_mask w = e_mask e \<and> m_data w = e_data e"

text \<open>\<open>next((i for i, w in enumerate(got) if P w), None)\<close>, counting from \<open>i\<close>.\<close>

fun next_index :: "('a \<Rightarrow> bool) \<Rightarrow> 'a list \<Rightarrow> nat \<Rightarrow> nat option" where
  "next_index P [] i = None"
| "next_index P (w # ws) i = (if P w then Some i else next_index P ws (Suc i))"

definition skew_offsets :: "int list" where
  "skew_offsets = [0, 2, 4, 6, 8]"

text \<open>The loop over the offsets, left at the first offset that has a candidate.\<close>

fun try_offsets :: "memw list \<Rightarrow> expected \<Rightarrow> int \<Rightarrow> int list \<Rightarrow> nat option" where
  "try_offsets got e p [] = None"
| "try_offsets got e p (off # offs) =
     (case next_index (hit e p off) got 0 of
        Some cand \<Rightarrow> Some cand
      | None \<Rightarrow> try_offsets got e p offs)"

text \<open>The loop over \<open>enumerate(EXP)\<close>; the state is \<open>(errors, positions)\<close>.\<close>

fun match_loop ::
  "memw list \<Rightarrow> (nat \<times> expected) list \<Rightarrow> err list \<times> (nat \<rightharpoonup> nat) \<Rightarrow> err list \<times> (nat \<rightharpoonup> nat)"
  where
  "match_loop got [] st = st"
| "match_loop got ((idx, e) # rest) (errors, positions) =
     (case e_pc e of
        None \<Rightarrow> match_loop got rest (errors @ [SymbolPCNotFound e], positions)
      | Some p \<Rightarrow>
          (case try_offsets got e p skew_offsets of
             Some cand \<Rightarrow> match_loop got rest (errors, positions(idx \<mapsto> cand))
           | None \<Rightarrow>
               match_loop got rest
                 (errors @ [MissingWrite p (e_addr e) (e_data e) (e_mask e)], positions)))"

subsection \<open>Order check (lines 210 to 213)\<close>

text \<open>
  The loop over \<open>range(len(EXP) - 1)\<close>. Reading \<open>positions[i]\<close> raises \<open>KeyError\<close> when the
  index has no entry.
\<close>

fun order_loop :: "(nat \<rightharpoonup> nat) \<Rightarrow> nat list \<Rightarrow> err list \<Rightarrow> key + err list" where
  "order_loop positions [] errors = Inr errors"
| "order_loop positions (i # rest) errors =
     (case positions i of
        None \<Rightarrow> Inl (PosKey i)
      | Some a \<Rightarrow>
          (case positions (i + 1) of
             None \<Rightarrow> Inl (PosKey (i + 1))
           | Some b \<Rightarrow>
               order_loop positions rest
                 (if a \<ge> b then errors @ [OrderMismatch i (i + 1)] else errors)))"

text \<open>Lines 189 to 213 for a list of expected events.\<close>

definition check_events :: "memw list \<Rightarrow> expected list \<Rightarrow> key + err list" where
  "check_events got exps =
     (case match_loop got (List.enumerate 0 exps) ([], Map.empty) of
        (errors, positions) \<Rightarrow>
          if errors = [] then order_loop positions [0 ..< length exps - 1] errors
          else Inr errors)"

subsection \<open>The write to g_data0 and the misaligned store (lines 216 to 222)\<close>

text \<open>
  \<open>writes_g0[0]\<close> is read only when the list has exactly one element: \<open>or\<close> does not
  evaluate its right operand when the left one is true.
\<close>

definition spurious_check :: "memw list \<Rightarrow> int \<Rightarrow> err list \<Rightarrow> err list" where
  "spurious_check got g_data0 errors =
     (let writes_g0 = filter (\<lambda>w. m_addr w = g_data0) got
      in case writes_g0 of
           [w] \<Rightarrow>
             if \<not> (m_data w = 0x12345678 \<and> m_mask w = 0xF)
             then errors @ [ExtraWrite (length writes_g0)] else errors
         | _ \<Rightarrow> errors @ [ExtraWrite (length writes_g0)])"

definition misaligned_check :: "memw list \<Rightarrow> int option \<Rightarrow> err list \<Rightarrow> err list" where
  "misaligned_check got misaligned_pc errors =
     (case misaligned_pc of
        None \<Rightarrow> errors
      | Some p \<Rightarrow>
          if list_ex (\<lambda>w. m_pc w = p) got then errors @ [UnexpectedMEMW] else errors)"

subsection \<open>Register checks (lines 232 to 252)\<close>

definition REG_EXP :: "reg_exp list" where
  "REG_EXP =
     [\<lparr>x_label = ''L_LI_T0'', x_rd = 5, x_val = 0x12345678\<rparr>,
      \<lparr>x_label = ''L_LI_T1'', x_rd = 6, x_val = 0xABCDEF01\<rparr>,
      \<lparr>x_label = ''L_LI_T2'', x_rd = 7, x_val = 0x11223344\<rparr>,
      \<lparr>x_label = ''L_LI_T3'', x_rd = 28, x_val = 0x0\<rparr>,
      \<lparr>x_label = ''L_LI_T0_1'', x_rd = 5, x_val = 0x1\<rparr>]"

text \<open>The first loop over \<open>REG_EXP\<close>; the state is \<open>(errors, final_pc_map)\<close>.\<close>

fun resolve_loop ::
  "string list option \<Rightarrow> reg_exp list \<Rightarrow> err list \<times> (string \<rightharpoonup> int)
     \<Rightarrow> err list \<times> (string \<rightharpoonup> int)" where
  "resolve_loop objdump [] st = st"
| "resolve_loop objdump (e # rest) (errors, final_pc_map) =
     (case parse_objdump_for_final_reg_pc objdump (x_label e) (x_rd e) of
        None \<Rightarrow> resolve_loop objdump rest (errors @ [ObjdumpPCNotFound (x_label e)], final_pc_map)
      | Some pc \<Rightarrow> resolve_loop objdump rest (errors, final_pc_map(x_label e \<mapsto> pc)))"

text \<open>The second loop over \<open>REG_EXP\<close>.\<close>

fun reg_loop :: "regw list \<Rightarrow> (string \<rightharpoonup> int) \<Rightarrow> reg_exp list \<Rightarrow> err list \<Rightarrow> err list" where
  "reg_loop got_reg final_pc_map [] errors = errors"
| "reg_loop got_reg final_pc_map (e # rest) errors =
     (case final_pc_map (x_label e) of
        None \<Rightarrow> reg_loop got_reg final_pc_map rest errors
      | Some pc_req \<Rightarrow>
          reg_loop got_reg final_pc_map rest
            (if \<not> list_ex (\<lambda>w. r_pc w = pc_req \<and> r_rd w = x_rd e \<and> r_val w = x_val e) got_reg
             then errors @ [MissingREG pc_req (x_rd e) (x_val e) (x_label e)]
             else errors))"

text \<open>Lines 239 to 252 for a list of register checks; \<open>errors\<close> is empty when they start.\<close>

definition reg_checks :: "string list option \<Rightarrow> regw list \<Rightarrow> reg_exp list \<Rightarrow> err list" where
  "reg_checks objdump got_reg reg_exps =
     (case resolve_loop objdump reg_exps ([], Map.empty) of
        (errors, final_pc_map) \<Rightarrow> reg_loop got_reg final_pc_map reg_exps errors)"

subsection \<open>main, from line 148 on\<close>

text \<open>
  What a run reads from outside: the symbol table \<open>parse_nm\<close> returns, the runner's return
  code, the two event lists parsed from the log and the listing. The lines before 148
  (argument parsing, the optional build, the test that the runner exists) are not part
  of the model.
\<close>

record env =
  syms :: "string \<rightharpoonup> int"
  rc :: int
  got :: "memw list"
  got_reg :: "regw list"
  objdump :: "string list option"

text \<open>Lines 169 to 176, from the dictionary \<open>pcs\<close> and the four data symbols.\<close>

definition EXP :: "(string \<rightharpoonup> int) \<Rightarrow> int \<Rightarrow> int \<Rightarrow> int \<Rightarrow> int \<Rightarrow> expected list" where
  "EXP pcs tohost g_data0 g_data1 g_buf =
     [\<lparr>e_pc = pcs ''L_SW_GDATA0'', e_addr = g_data0, e_data = 0x12345678, e_mask = 0xF\<rparr>,
      \<lparr>e_pc = pcs ''L_SW_GDATA1'', e_addr = g_data1, e_data = 0xABCDEF01, e_mask = 0xF\<rparr>,
      \<lparr>e_pc = pcs ''L_SW_GBUF'', e_addr = g_buf + 0, e_data = 0x11223344, e_mask = 0xF\<rparr>,
      \<lparr>e_pc = pcs ''L_SH_GBUF_P2'', e_addr = g_buf + 0, e_data = 0x33441122, e_mask = 0xC\<rparr>,
      \<lparr>e_pc = pcs ''L_SB_GBUF_P1'', e_addr = g_buf + 0, e_data = 0x22334411, e_mask = 0x2\<rparr>,
      \<lparr>e_pc = pcs ''L_SW_TOHOST'', e_addr = tohost, e_data = 0x1, e_mask = 0xF\<rparr>]"

text \<open>
  Lines 189 to 263, once the four data symbols are known and the runner has returned 0.
  \<open>pcs[name]\<close> is \<open>syms.get(name)\<close> for each of the twelve labels of lines 153 to 166.
\<close>

definition verify ::
  "env \<Rightarrow> int \<Rightarrow> int \<Rightarrow> int \<Rightarrow> int \<Rightarrow> outcome" where
  "verify env tohost g_data0 g_data1 g_buf =
     (case check_events (got env) (EXP (syms env) tohost g_data0 g_data1 g_buf) of
        Inl k \<Rightarrow> KeyError k
      | Inr errors1 \<Rightarrow>
          (let errors2 = spurious_check (got env) g_data0 errors1;
               errors3 = misaligned_check (got env) (syms env ''L_MISALIGNED_SW'') errors2
           in if errors3 \<noteq> [] then Fail errors3
              else (let errors4 = reg_checks (objdump env) (got_reg env) REG_EXP
                    in if errors4 \<noteq> [] then Fail errors4 else Pass)))"

text \<open>Lines 148 to 152 and 181 to 184: \<open>syms[name]\<close> raises \<open>KeyError\<close> on a missing name.\<close>

definition main :: "env \<Rightarrow> outcome" where
  "main env =
     (case syms env ''tohost'' of
        None \<Rightarrow> KeyError (SymKey ''tohost'')
      | Some tohost \<Rightarrow>
     (case syms env ''g_data0'' of
        None \<Rightarrow> KeyError (SymKey ''g_data0'')
      | Some g_data0 \<Rightarrow>
     (case syms env ''g_data1'' of
        None \<Rightarrow> KeyError (SymKey ''g_data1'')
      | Some g_data1 \<Rightarrow>
     (case syms env ''g_buf'' of
        None \<Rightarrow> KeyError (SymKey ''g_buf'')
      | Some g_buf \<Rightarrow>
          if rc env \<noteq> 0 then RunnerFailed (rc env)
          else verify env tohost g_data0 g_data1 g_buf))))"

subsection \<open>What one expected event contributes\<close>

text \<open>
  Two functions used to state the properties of the loop of lines 191 to 208: the index
  that one pass of the loop body stores in \<open>positions\<close>, and the errors it appends.
\<close>

definition event_position :: "memw list \<Rightarrow> expected \<Rightarrow> nat option" where
  "event_position obs e =
     (case e_pc e of None \<Rightarrow> None | Some p \<Rightarrow> try_offsets obs e p skew_offsets)"

definition event_errors :: "memw list \<Rightarrow> expected \<Rightarrow> err list" where
  "event_errors obs e =
     (case e_pc e of
        None \<Rightarrow> [SymbolPCNotFound e]
      | Some p \<Rightarrow>
          (case try_offsets obs e p skew_offsets of
             None \<Rightarrow> [MissingWrite p (e_addr e) (e_data e) (e_mask e)]
           | Some cand \<Rightarrow> []))"

subsection \<open>A sample run\<close>

text \<open>
  A symbol table with every symbol the checker reads, and the memory writes of a run in
  which each expected store retires once, in program order, at its label.
\<close>

definition sample_syms :: "string \<rightharpoonup> int" where
  "sample_syms =
     map_of [(''tohost'', 0x1000), (''g_data0'', 0x2000), (''g_data1'', 0x2004),
             (''g_buf'', 0x2008), (''L_SW_GDATA0'', 0x40), (''L_SW_GDATA1'', 0x48),
             (''L_SW_GBUF'', 0x50), (''L_SH_GBUF_P2'', 0x58), (''L_SB_GBUF_P1'', 0x60),
             (''L_SW_TOHOST'', 0x68), (''L_MISALIGNED_SW'', 0x70)]"

definition sample_w0 :: memw where
  "sample_w0 = \<lparr>m_pc = 0x40, m_addr = 0x2000, m_data = 0x12345678, m_mask = 0xF\<rparr>"

definition sample_w1 :: memw where
  "sample_w1 = \<lparr>m_pc = 0x48, m_addr = 0x2004, m_data = 0xABCDEF01, m_mask = 0xF\<rparr>"

definition sample_w2 :: memw where
  "sample_w2 = \<lparr>m_pc = 0x50, m_addr = 0x2008, m_data = 0x11223344, m_mask = 0xF\<rparr>"

definition sample_w3 :: memw where
  "sample_w3 = \<lparr>m_pc = 0x58, m_addr = 0x2008, m_data = 0x33441122, m_mask = 0xC\<rparr>"

definition sample_w4 :: memw where
  "sample_w4 = \<lparr>m_pc = 0x60, m_addr = 0x2008, m_data = 0x22334411, m_mask = 0x2\<rparr>"

definition sample_w5 :: memw where
  "sample_w5 = \<lparr>m_pc = 0x68, m_addr = 0x1000, m_data = 0x1, m_mask = 0xF\<rparr>"

definition sample_EXP :: "expected list" where
  "sample_EXP = EXP sample_syms 0x1000 0x2000 0x2004 0x2008"

text \<open>
  Lines of a listing in the layout objdump prints: a label header, the two instructions
  that load 0x12345678 into t0, a store of t0, a compressed store of t0 to the stack,
  and the four blocks that follow in the listing.
\<close>

definition sample_hdr_t0 :: string where
  "sample_hdr_t0 = ''00000080 <L_LI_T0>:'' @ [CHR 0x0A]"

definition sample_lui :: string where
  "sample_lui = ''  80:'' @ [CHR 0x09] @ ''123452b7          '' @ [CHR 0x09] @ ''lui''
                 @ [CHR 0x09] @ ''t0,0x12345'' @ [CHR 0x0A]"

definition sample_addi :: string where
  "sample_addi = ''  84:'' @ [CHR 0x09] @ ''67828293          '' @ [CHR 0x09] @ ''addi''
                  @ [CHR 0x09] @ ''t0,t0,1656'' @ [CHR 0x0A]"

definition sample_sw :: string where
  "sample_sw = ''  88:'' @ [CHR 0x09] @ ''0051a023          '' @ [CHR 0x09] @ ''sw''
                @ [CHR 0x09] @ ''t0,0(gp)'' @ [CHR 0x0A]"

definition sample_c_swsp :: string where
  "sample_c_swsp = ''  88:'' @ [CHR 0x09] @ ''c216                '' @ [CHR 0x09] @ ''c.swsp''
                    @ [CHR 0x09] @ ''t0,4(sp)'' @ [CHR 0x0A]"

definition sample_hdr_t1 :: string where
  "sample_hdr_t1 = ''0000008c <L_LI_T1>:'' @ [CHR 0x0A]"

definition sample_listing :: "string list" where
  "sample_listing =
     [sample_hdr_t0, sample_lui, sample_addi, sample_sw,
      sample_hdr_t1,
      ''  8c:'' @ [CHR 0x09] @ ''abcdf337          '' @ [CHR 0x09] @ ''lui''
        @ [CHR 0x09] @ ''t1,0xabcdf'' @ [CHR 0x0A],
      ''  90:'' @ [CHR 0x09] @ ''f0130313          '' @ [CHR 0x09] @ ''addi''
        @ [CHR 0x09] @ ''t1,t1,-255'' @ [CHR 0x0A],
      ''00000094 <L_LI_T2>:'' @ [CHR 0x0A],
      ''  94:'' @ [CHR 0x09] @ ''112233b7          '' @ [CHR 0x09] @ ''lui''
        @ [CHR 0x09] @ ''t2,0x11223'' @ [CHR 0x0A],
      ''  98:'' @ [CHR 0x09] @ ''34438393          '' @ [CHR 0x09] @ ''addi''
        @ [CHR 0x09] @ ''t2,t2,836'' @ [CHR 0x0A],
      ''0000009c <L_LI_T3>:'' @ [CHR 0x0A],
      ''  9c:'' @ [CHR 0x09] @ ''00000e13          '' @ [CHR 0x09] @ ''li''
        @ [CHR 0x09] @ ''t3,0'' @ [CHR 0x0A],
      ''000000a0 <L_LI_T0_1>:'' @ [CHR 0x0A],
      ''  a0:'' @ [CHR 0x09] @ ''00100293          '' @ [CHR 0x09] @ ''li''
        @ [CHR 0x09] @ ''t0,1'' @ [CHR 0x0A]]"

text \<open>The register writes of the five blocks, each at the pc of its last instruction.\<close>

definition sample_regs :: "regw list" where
  "sample_regs =
     [\<lparr>r_pc = 0x80, r_rd = 5, r_val = 0x12345000\<rparr>,
      \<lparr>r_pc = 0x84, r_rd = 5, r_val = 0x12345678\<rparr>,
      \<lparr>r_pc = 0x8C, r_rd = 6, r_val = 0xABCDF000\<rparr>,
      \<lparr>r_pc = 0x90, r_rd = 6, r_val = 0xABCDEF01\<rparr>,
      \<lparr>r_pc = 0x94, r_rd = 7, r_val = 0x11223000\<rparr>,
      \<lparr>r_pc = 0x98, r_rd = 7, r_val = 0x11223344\<rparr>,
      \<lparr>r_pc = 0x9C, r_rd = 28, r_val = 0x0\<rparr>,
      \<lparr>r_pc = 0xA0, r_rd = 5, r_val = 0x1\<rparr>]"

definition sample_trace :: "memw list" where
  "sample_trace = [sample_w0, sample_w1, sample_w2, sample_w3, sample_w4, sample_w5]"

definition sample_env :: env where
  "sample_env =
     \<lparr>syms = sample_syms, rc = 0, got = sample_trace, got_reg = sample_regs,
      objdump = Some sample_listing\<rparr>"

text \<open>The errors of line 193.\<close>

fun is_symbol_error :: "err \<Rightarrow> bool" where
  "is_symbol_error (SymbolPCNotFound e) = True"
| "is_symbol_error _ = False"

section \<open>Properties\<close>

subsection \<open>The matching loop\<close>

lemma next_index_None: "next_index P ws i = None \<longleftrightarrow> (\<forall>w\<in>set ws. \<not> P w)"
  by (induction ws arbitrary: i) auto

lemma next_index_Some:
  "next_index P ws i = Some k \<longleftrightarrow>
     i \<le> k \<and> k - i < length ws \<and> P (ws ! (k - i)) \<and> (\<forall>j<k - i. \<not> P (ws ! j))"
proof (induction ws arbitrary: i)
  case Nil
  then show ?case by simp
next
  case (Cons w ws)
  show ?case
  proof (cases "P w")
    case True
    then show ?thesis by (auto simp: nth_Cons split: nat.splits)
  next
    case False
    have "next_index P (w # ws) i = Some k \<longleftrightarrow> next_index P ws (Suc i) = Some k"
      using False by simp
    also have "\<dots> \<longleftrightarrow> Suc i \<le> k \<and> k - Suc i < length ws \<and> P (ws ! (k - Suc i))
                     \<and> (\<forall>j<k - Suc i. \<not> P (ws ! j))"
      by (rule Cons.IH)
    also have "\<dots> \<longleftrightarrow> i \<le> k \<and> k - i < length (w # ws) \<and> P ((w # ws) ! (k - i))
                     \<and> (\<forall>j<k - i. \<not> P ((w # ws) ! j))"
    proof (cases "k \<le> i")
      case True
      then show ?thesis using False by auto
    next
      case gt: False
      then obtain d where d: "k - i = Suc d" "k - Suc i = d"
        by (metis Suc_diff_Suc not_le_imp_less)
      have "(\<forall>j<Suc d. \<not> P ((w # ws) ! j)) \<longleftrightarrow> (\<forall>j<d. \<not> P (ws ! j))"
        using False by (auto simp: nth_Cons less_Suc_eq_0_disj)
      then show ?thesis using gt d by auto
    qed
    finally show ?thesis .
  qed
qed

lemma try_offsets_None:
  "try_offsets obs e p offs = None \<longleftrightarrow> (\<forall>off\<in>set offs. \<forall>w\<in>set obs. \<not> hit e p off w)"
proof (induction offs)
  case Nil
  then show ?case by simp
next
  case (Cons a offs)
  show ?case
  proof (cases "next_index (hit e p a) obs 0")
    case None
    then have r: "try_offsets obs e p (a # offs) = try_offsets obs e p offs" by simp
    have "\<forall>w\<in>set obs. \<not> hit e p a w"
      using None next_index_None[of "hit e p a" obs 0] by simp
    then show ?thesis unfolding r using Cons.IH by simp
  next
    case (Some c)
    then have "\<not> (\<forall>w\<in>set obs. \<not> hit e p a w)"
      using next_index_None[of "hit e p a" obs 0] by simp
    then show ?thesis using Some by auto
  qed
qed

lemma try_offsets_Some:
  "try_offsets obs e p offs = Some k \<Longrightarrow>
     \<exists>pre off post. offs = pre @ off # post
       \<and> (\<forall>o'\<in>set pre. \<forall>w\<in>set obs. \<not> hit e p o' w)
       \<and> next_index (hit e p off) obs 0 = Some k"
proof (induction offs)
  case Nil
  then show ?case by simp
next
  case (Cons a offs)
  show ?case
  proof (cases "next_index (hit e p a) obs 0")
    case None
    with Cons.prems have "try_offsets obs e p offs = Some k" by simp
    from Cons.IH[OF this] obtain pre off post where
      h: "offs = pre @ off # post" "\<forall>o'\<in>set pre. \<forall>w\<in>set obs. \<not> hit e p o' w"
         "next_index (hit e p off) obs 0 = Some k" by blast
    have "a # offs = (a # pre) @ off # post" using h(1) by simp
    moreover have "\<forall>o'\<in>set (a # pre). \<forall>w\<in>set obs. \<not> hit e p o' w"
      using h(2) None by (simp add: next_index_None)
    ultimately show ?thesis using h(3) by blast
  next
    case (Some c)
    with Cons.prems have "c = k" by simp
    with Some have "a # offs = [] @ a # offs \<and> (\<forall>o'\<in>set []. \<forall>w\<in>set obs. \<not> hit e p o' w)
       \<and> next_index (hit e p a) obs 0 = Some k" by simp
    then show ?thesis by blast
  qed
qed

lemma try_offsets_skew:
  assumes "try_offsets obs e p skew_offsets = Some k"
  shows "\<exists>off\<in>set skew_offsets. k < length obs \<and> hit e p off (obs ! k)
           \<and> (\<forall>j<k. \<not> hit e p off (obs ! j))
           \<and> (\<forall>off'\<in>set skew_offsets. off' < off \<longrightarrow> (\<forall>w\<in>set obs. \<not> hit e p off' w))"
proof -
  from try_offsets_Some[OF assms] obtain pre off post where
    h: "skew_offsets = pre @ off # post" "\<forall>o'\<in>set pre. \<forall>w\<in>set obs. \<not> hit e p o' w"
       "next_index (hit e p off) obs 0 = Some k" by blast
  have srt: "sorted skew_offsets" by (simp add: skew_offsets_def)
  have low: "off' \<in> set pre" if "off' \<in> set skew_offsets" "off' < off" for off'
    using that srt unfolding h(1) by (auto simp: sorted_append)
  have "off \<in> set skew_offsets" unfolding h(1) by simp
  moreover have "k < length obs \<and> hit e p off (obs ! k) \<and> (\<forall>j<k. \<not> hit e p off (obs ! j))"
    using h(3) by (simp add: next_index_Some)
  ultimately show ?thesis using low h(2) by blast
qed


lemma match_loop_errors:
  "fst (match_loop obs (List.enumerate n exps) (errs, pos))
     = errs @ concat (map (event_errors obs) exps)"
  by (induction exps arbitrary: n errs pos)
     (auto simp: event_errors_def split: option.splits)

lemma match_loop_positions:
  "snd (match_loop obs (List.enumerate n exps) (errs, pos)) i
     = (if n \<le> i \<and> i < n + length exps
        then (case event_position obs (exps ! (i - n)) of Some c \<Rightarrow> Some c | None \<Rightarrow> pos i)
        else pos i)"
proof (induction exps arbitrary: n errs pos)
  case Nil
  then show ?case by auto
next
  case (Cons e exps)
  have nth: "(e # exps) ! (i - n) = exps ! (i - Suc n)" if "Suc n \<le> i"
  proof -
    have "i - n = Suc (i - Suc n)" using that by arith
    then show ?thesis by simp
  qed
  show ?case
  proof (cases "i = n")
    case True
    then have n: "n = i" by simp
    show ?thesis unfolding n
      by (auto simp: Cons.IH event_position_def split: option.splits)
  next
    case False
    then show ?thesis
      using nth by (auto simp: Cons.IH event_position_def split: option.splits)
  qed
qed

lemma event_errors_Nil:
  "event_errors obs e = [] \<longleftrightarrow> (\<exists>c. event_position obs e = Some c)"
  by (auto simp: event_errors_def event_position_def split: option.splits)

lemma order_loop_total:
  "(\<forall>i\<in>set is. pos i = Some (posn i) \<and> pos (Suc i) = Some (posn (Suc i))) \<Longrightarrow>
   order_loop pos is errs
     = Inr (errs @ map (\<lambda>i. OrderMismatch i (Suc i)) (filter (\<lambda>i. posn i \<ge> posn (Suc i)) is))"
  by (induction "is" arbitrary: errs) auto

lemma check_events_errors:
  assumes "concat (map (event_errors obs) exps) \<noteq> []"
  shows "check_events obs exps = Inr (concat (map (event_errors obs) exps))"
proof -
  obtain errors positions where
    m: "match_loop obs (List.enumerate 0 exps) ([], Map.empty) = (errors, positions)"
    by (cases "match_loop obs (List.enumerate 0 exps) ([], Map.empty)")
  have eq: "errors = concat (map (event_errors obs) exps)"
    using match_loop_errors[of obs 0 exps "[]" Map.empty] m by simp
  then have ne: "errors \<noteq> []" using assms by simp
  have "check_events obs exps = Inr errors"
    using ne by (simp add: check_events_def m)
  then show ?thesis unfolding eq .
qed

lemma check_events_order:
  assumes "concat (map (event_errors obs) exps) = []"
  shows "\<exists>posn. (\<forall>i<length exps. event_position obs (exps ! i) = Some (posn i))
           \<and> check_events obs exps
               = Inr (map (\<lambda>i. OrderMismatch i (Suc i))
                        (filter (\<lambda>i. posn i \<ge> posn (Suc i)) [0 ..< length exps - 1]))"
proof -
  obtain errors positions where
    m: "match_loop obs (List.enumerate 0 exps) ([], Map.empty) = (errors, positions)"
    by (cases "match_loop obs (List.enumerate 0 exps) ([], Map.empty)")
  have e: "errors = []"
    using match_loop_errors[of obs 0 exps "[]" Map.empty] m assms by simp
  have p: "positions i = (if i < length exps then event_position obs (exps ! i) else None)" for i
    using match_loop_positions[of obs 0 exps "[]" Map.empty i] m
    by (auto split: option.splits)
  have d: "\<exists>c. event_position obs (exps ! i) = Some c" if "i < length exps" for i
  proof -
    have "exps ! i \<in> set exps" using that by simp
    then have "event_errors obs (exps ! i) = []" using assms by simp
    then show ?thesis by (simp add: event_errors_Nil)
  qed
  define posn where "posn i = the (event_position obs (exps ! i))" for i
  have q: "event_position obs (exps ! i) = Some (posn i)" if "i < length exps" for i
    using d[OF that] by (auto simp: posn_def)
  have "\<forall>i\<in>set [0 ..< length exps - 1].
          positions i = Some (posn i) \<and> positions (Suc i) = Some (posn (Suc i))"
    using p q by auto
  from order_loop_total[OF this, of "[]"] have
    "order_loop positions [0 ..< length exps - 1] []
       = Inr (map (\<lambda>i. OrderMismatch i (Suc i))
                (filter (\<lambda>i. posn i \<ge> posn (Suc i)) [0 ..< length exps - 1]))" by simp
  then have "check_events obs exps
       = Inr (map (\<lambda>i. OrderMismatch i (Suc i))
                (filter (\<lambda>i. posn i \<ge> posn (Suc i)) [0 ..< length exps - 1]))"
    using m e by (simp add: check_events_def)
  then show ?thesis using q by blast
qed

lemma hit_fields:
  "hit e p off w \<longleftrightarrow>
     m_addr w = e_addr e \<and> m_data w = e_data e \<and> m_mask w = e_mask e \<and> m_pc w = p + off"
  by (auto simp: hit_def)

lemma skew_set: "set skew_offsets = {0, 2, 4, 6, 8}"
  by (simp add: skew_offsets_def)

lemma match_positions:
  "i < length exps \<Longrightarrow>
   snd (match_loop obs (List.enumerate 0 exps) ([], Map.empty)) i = event_position obs (exps ! i)"
  using match_loop_positions[of obs 0 exps "[]" Map.empty i]
  by (auto split: option.splits)

lemma check_events_missing:
  assumes "i < length exps" "e_pc (exps ! i) = Some p"
    "try_offsets obs (exps ! i) p skew_offsets = None"
  shows "\<exists>errs. check_events obs exps = Inr errs
           \<and> MissingWrite p (e_addr (exps ! i)) (e_data (exps ! i)) (e_mask (exps ! i)) \<in> set errs"
proof -
  let ?m = "MissingWrite p (e_addr (exps ! i)) (e_data (exps ! i)) (e_mask (exps ! i))"
  have "?m \<in> set (event_errors obs (exps ! i))"
    using assms(2,3) by (simp add: event_errors_def)
  moreover have "exps ! i \<in> set exps" using assms(1) by simp
  ultimately have mem: "?m \<in> set (concat (map (event_errors obs) exps))"
    unfolding set_concat set_map by blast
  have "concat (map (event_errors obs) exps) \<noteq> []"
  proof
    assume "concat (map (event_errors obs) exps) = []"
    with mem show False by simp
  qed
  from check_events_errors[OF this] mem show ?thesis by blast
qed

text \<open>
  Claim C1. For an expected event with pc \<open>p\<close>, the matcher finds an observed event iff
  some observed event has the expected addr, data and mask and its pc is \<open>p\<close> plus one of
  0, 2, 4, 6, 8. The index found is the first index that matches at the lowest offset
  that matches anywhere, and it is the index stored in \<open>positions\<close>. When every observed
  event with the expected addr, data and mask sits at \<open>p + 1\<close>, nothing is found; and an
  expected event for which nothing is found gives a \<open>MissingWrite\<close> error with the expected
  pc, addr, data and mask.
\<close>

theorem C1_skew_match:
  "((\<exists>k. try_offsets obs e p skew_offsets = Some k) \<longleftrightarrow>
      (\<exists>off\<in>{0, 2, 4, 6, 8}. \<exists>w\<in>set obs.
         m_addr w = e_addr e \<and> m_data w = e_data e \<and> m_mask w = e_mask e \<and> m_pc w = p + off))
   \<and> (\<forall>k. try_offsets obs e p skew_offsets = Some k \<longrightarrow>
         k < length obs \<and>
         (\<exists>off\<in>{0, 2, 4, 6, 8}. hit e p off (obs ! k) \<and> (\<forall>j<k. \<not> hit e p off (obs ! j))
            \<and> (\<forall>off'\<in>{0, 2, 4, 6, 8}. off' < off \<longrightarrow> (\<forall>w\<in>set obs. \<not> hit e p off' w))))
   \<and> (\<forall>i p'. i < length exps \<and> e_pc (exps ! i) = Some p' \<longrightarrow>
         snd (match_loop obs (List.enumerate 0 exps) ([], Map.empty)) i
           = try_offsets obs (exps ! i) p' skew_offsets)
   \<and> ((\<forall>w\<in>set obs. m_addr w = e_addr e \<and> m_data w = e_data e \<and> m_mask w = e_mask e
          \<longrightarrow> m_pc w = p + 1) \<longrightarrow> try_offsets obs e p skew_offsets = None)
   \<and> (\<forall>i p'. i < length exps \<and> e_pc (exps ! i) = Some p'
          \<and> try_offsets obs (exps ! i) p' skew_offsets = None \<longrightarrow>
         (\<exists>errs. check_events obs exps = Inr errs
            \<and> MissingWrite p' (e_addr (exps ! i)) (e_data (exps ! i)) (e_mask (exps ! i))
                \<in> set errs))"
proof -
  have a: "(\<exists>k. try_offsets obs e p skew_offsets = Some k) \<longleftrightarrow>
      (\<exists>off\<in>{0, 2, 4, 6, 8}. \<exists>w\<in>set obs.
         m_addr w = e_addr e \<and> m_data w = e_data e \<and> m_mask w = e_mask e \<and> m_pc w = p + off)"
  proof -
    have "(\<exists>k. try_offsets obs e p skew_offsets = Some k)
            \<longleftrightarrow> \<not> (\<forall>off\<in>set skew_offsets. \<forall>w\<in>set obs. \<not> hit e p off w)"
      using try_offsets_None[of obs e p skew_offsets] by auto
    then show ?thesis unfolding skew_set hit_fields by blast
  qed
  have b: "\<forall>k. try_offsets obs e p skew_offsets = Some k \<longrightarrow>
         k < length obs \<and>
         (\<exists>off\<in>{0, 2, 4, 6, 8}. hit e p off (obs ! k) \<and> (\<forall>j<k. \<not> hit e p off (obs ! j))
            \<and> (\<forall>off'\<in>{0, 2, 4, 6, 8}. off' < off \<longrightarrow> (\<forall>w\<in>set obs. \<not> hit e p off' w)))"
    using try_offsets_skew[of obs e p] unfolding skew_set by blast
  have c: "\<forall>i p'. i < length exps \<and> e_pc (exps ! i) = Some p' \<longrightarrow>
         snd (match_loop obs (List.enumerate 0 exps) ([], Map.empty)) i
           = try_offsets obs (exps ! i) p' skew_offsets"
    by (simp add: match_positions event_position_def)
  have d: "(\<forall>w\<in>set obs. m_addr w = e_addr e \<and> m_data w = e_data e \<and> m_mask w = e_mask e
          \<longrightarrow> m_pc w = p + 1) \<longrightarrow> try_offsets obs e p skew_offsets = None"
    unfolding try_offsets_None skew_set hit_fields by auto
  have f: "\<forall>i p'. i < length exps \<and> e_pc (exps ! i) = Some p'
          \<and> try_offsets obs (exps ! i) p' skew_offsets = None \<longrightarrow>
         (\<exists>errs. check_events obs exps = Inr errs
            \<and> MissingWrite p' (e_addr (exps ! i)) (e_data (exps ! i)) (e_mask (exps ! i))
                \<in> set errs)"
    using check_events_missing by blast
  show ?thesis by (rule conjI[OF a conjI[OF b conjI[OF c conjI[OF d f]]]])
qed

theorem C1_skew_match_witness:
  "(\<exists>k. try_offsets
          [\<lparr>m_pc = 0x44, m_addr = 0x2000, m_data = 0x12345678, m_mask = 0xF\<rparr>,
           \<lparr>m_pc = 0x42, m_addr = 0x2000, m_data = 0x12345678, m_mask = 0xF\<rparr>,
           \<lparr>m_pc = 0x51, m_addr = 0x3000, m_data = 0x1, m_mask = 0xF\<rparr>]
          \<lparr>e_pc = Some 0x40, e_addr = 0x2000, e_data = 0x12345678, e_mask = 0xF\<rparr>
          0x40 skew_offsets = Some k)
   \<and> try_offsets
          [\<lparr>m_pc = 0x44, m_addr = 0x2000, m_data = 0x12345678, m_mask = 0xF\<rparr>,
           \<lparr>m_pc = 0x42, m_addr = 0x2000, m_data = 0x12345678, m_mask = 0xF\<rparr>,
           \<lparr>m_pc = 0x51, m_addr = 0x3000, m_data = 0x1, m_mask = 0xF\<rparr>]
          \<lparr>e_pc = Some 0x50, e_addr = 0x3000, e_data = 0x1, e_mask = 0xF\<rparr>
          0x50 skew_offsets = None
   \<and> (\<exists>errs. check_events
          [\<lparr>m_pc = 0x44, m_addr = 0x2000, m_data = 0x12345678, m_mask = 0xF\<rparr>,
           \<lparr>m_pc = 0x42, m_addr = 0x2000, m_data = 0x12345678, m_mask = 0xF\<rparr>,
           \<lparr>m_pc = 0x51, m_addr = 0x3000, m_data = 0x1, m_mask = 0xF\<rparr>]
          [\<lparr>e_pc = Some 0x40, e_addr = 0x2000, e_data = 0x12345678, e_mask = 0xF\<rparr>,
           \<lparr>e_pc = Some 0x50, e_addr = 0x3000, e_data = 0x1, e_mask = 0xF\<rparr>] = Inr errs
        \<and> MissingWrite 0x50 0x3000 0x1 0xF \<in> set errs)"
proof -
  let ?obs = "[\<lparr>m_pc = 0x44, m_addr = 0x2000, m_data = 0x12345678, m_mask = 0xF\<rparr>,
           \<lparr>m_pc = 0x42, m_addr = 0x2000, m_data = 0x12345678, m_mask = 0xF\<rparr>,
           \<lparr>m_pc = 0x51, m_addr = 0x3000, m_data = 0x1, m_mask = 0xF\<rparr>]"
  let ?e0 = "\<lparr>e_pc = Some 0x40, e_addr = 0x2000, e_data = 0x12345678, e_mask = 0xF\<rparr>"
  let ?e1 = "\<lparr>e_pc = Some 0x50, e_addr = 0x3000, e_data = 0x1, e_mask = 0xF\<rparr>"
  have a: "\<exists>k. try_offsets ?obs ?e0 0x40 skew_offsets = Some k"
    using C1_skew_match[where obs = ?obs and e = ?e0 and p = "0x40"] by simp
  have b: "try_offsets ?obs ?e1 0x50 skew_offsets = None"
    using C1_skew_match[where obs = ?obs and e = ?e1 and p = "0x50"] by simp
  have c: "\<exists>errs. check_events ?obs [?e0, ?e1] = Inr errs
        \<and> MissingWrite 0x50 0x3000 0x1 0xF \<in> set errs"
    using C1_skew_match[where obs = ?obs and exps = "[?e0, ?e1]", THEN conjunct2, THEN conjunct2,
        THEN conjunct2, THEN conjunct2, rule_format, of 1 "0x50"] b
    by simp
  from a b c show ?thesis by blast
qed

subsection \<open>The order check\<close>

lemma check_events_posn:
  assumes q: "\<And>i. i < length exps \<Longrightarrow> event_position obs (exps ! i) = Some (posn i)"
  shows "check_events obs exps
           = Inr (map (\<lambda>i. OrderMismatch i (Suc i))
                    (filter (\<lambda>i. posn i \<ge> posn (Suc i)) [0 ..< length exps - 1]))"
proof -
  obtain errors positions where
    m: "match_loop obs (List.enumerate 0 exps) ([], Map.empty) = (errors, positions)"
    by (cases "match_loop obs (List.enumerate 0 exps) ([], Map.empty)")
  have "event_errors obs x = []" if "x \<in> set exps" for x
  proof -
    from that obtain i where "i < length exps" "x = exps ! i"
      by (auto simp: in_set_conv_nth)
    then show ?thesis using q[of i] by (simp add: event_errors_Nil)
  qed
  then have "concat (map (event_errors obs) exps) = []" by simp
  then have e: "errors = []"
    using match_loop_errors[of obs 0 exps "[]" Map.empty] m by simp
  have p: "positions i = Some (posn i)" if "i < length exps" for i
    using match_positions[OF that, of obs] m q[OF that] by simp
  have "\<forall>i\<in>set [0 ..< length exps - 1].
          positions i = Some (posn i) \<and> positions (Suc i) = Some (posn (Suc i))"
    using p by auto
  from order_loop_total[OF this, of "[]"] have
    "order_loop positions [0 ..< length exps - 1] []
       = Inr (map (\<lambda>i. OrderMismatch i (Suc i))
                (filter (\<lambda>i. posn i \<ge> posn (Suc i)) [0 ..< length exps - 1]))" by simp
  then show ?thesis using m e by (simp add: check_events_def)
qed

lemma check_events_list:
  assumes "map (event_position obs) exps = map Some ps"
  shows "check_events obs exps
           = Inr (map (\<lambda>i. OrderMismatch i (Suc i))
                    (filter (\<lambda>i. ps ! i \<ge> ps ! Suc i) [0 ..< length ps - 1]))"
proof -
  have len: "length ps = length exps"
    using assms by (metis length_map)
  have "event_position obs (exps ! i) = Some (ps ! i)" if "i < length exps" for i
  proof -
    have "map (event_position obs) exps ! i = map Some ps ! i" using assms by simp
    then show ?thesis using that len by simp
  qed
  from check_events_posn[of exps obs "\<lambda>i. ps ! i", OF this] show ?thesis
    by (simp add: len)
qed

lemma order_swap:
  fixes p0 :: nat
  assumes "p0 < p1" "p2 < p1" "sorted_wrt (<) (p2 # rest)"
  shows "filter (\<lambda>i. (p0 # p1 # p2 # rest) ! i \<ge> (p0 # p1 # p2 # rest) ! Suc i)
           [0 ..< length (p0 # p1 # p2 # rest) - 1] = [1::nat]"
proof -
  have tail: "(p2 # rest) ! a < (p2 # rest) ! Suc a" if "Suc a < length (p2 # rest)" for a
    using assms(3) that by (simp only: sorted_wrt_iff_nth_less)
  have u0: "[0 ..< 2 + length rest] = 0 # [Suc 0 ..< 2 + length rest]"
    by (rule upt_conv_Cons) simp
  have u1: "[Suc 0 ..< 2 + length rest] = Suc 0 # [Suc (Suc 0) ..< 2 + length rest]"
    by (rule upt_conv_Cons) simp
  have len: "length (p0 # p1 # p2 # rest) - 1 = 2 + length rest" by simp
  have up: "[0 ..< length (p0 # p1 # p2 # rest) - 1] = 0 # 1 # [2 ..< 2 + length rest]"
    unfolding len u0 u1 by (simp add: numeral_2_eq_2)
  have "filter (\<lambda>i. (p0 # p1 # p2 # rest) ! i \<ge> (p0 # p1 # p2 # rest) ! Suc i)
          [2 ..< 2 + length rest] = []"
  proof (rule filter_False, rule ballI)
    fix i assume "i \<in> set [2 ..< 2 + length rest]"
    then have bounds: "2 \<le> i" "i < 2 + length rest"
      by (simp_all only: set_upt atLeastLessThan_iff)
    define a where "a = i - 2"
    have a: "i = Suc (Suc a)" "a < length rest"
      using bounds by (simp_all add: a_def)
    have "(p2 # rest) ! a < (p2 # rest) ! Suc a" using tail[of a] a(2) by simp
    then show "\<not> (p0 # p1 # p2 # rest) ! i \<ge> (p0 # p1 # p2 # rest) ! Suc i"
      unfolding a(1) by simp
  qed
  then show ?thesis unfolding up using assms(1,2) by simp
qed

lemma chain_less:
  fixes f :: "nat \<Rightarrow> nat"
  shows "i < j \<Longrightarrow> (\<forall>a. i \<le> a \<and> a < j \<longrightarrow> f a < f (Suc a)) \<Longrightarrow> f i < f j"
proof (induction j)
  case 0
  then show ?case by simp
next
  case (Suc j)
  show ?case
  proof (cases "i = j")
    case True
    then show ?thesis using Suc.prems by simp
  next
    case False
    then have "i < j" using Suc.prems by simp
    moreover have "\<forall>a. i \<le> a \<and> a < j \<longrightarrow> f a < f (Suc a)" using Suc.prems by simp
    ultimately have "f i < f j" by (rule Suc.IH)
    moreover have "f j < f (Suc j)" using Suc.prems \<open>i < j\<close> by simp
    ultimately show ?thesis by simp
  qed
qed

lemmas sample_defs = sample_syms_def sample_w0_def sample_w1_def sample_w2_def sample_w3_def
  sample_w4_def sample_w5_def sample_EXP_def EXP_def

lemma event_errors_no_order: "OrderMismatch a b \<notin> set (event_errors obs e)"
  by (simp add: event_errors_def split: option.splits)

lemma matched_iff:
  "concat (map (event_errors obs) exps) = [] \<longleftrightarrow>
     (\<exists>ps. map (event_position obs) exps = map Some ps)"
proof
  assume "concat (map (event_errors obs) exps) = []"
  then have "\<forall>e\<in>set exps. \<exists>c. event_position obs e = Some c"
    by (simp add: event_errors_Nil)
  then have "map (event_position obs) exps
               = map Some (map (\<lambda>e. the (event_position obs e)) exps)"
    by auto
  then show "\<exists>ps. map (event_position obs) exps = map Some ps" by blast
next
  assume "\<exists>ps. map (event_position obs) exps = map Some ps"
  then obtain ps where ps: "map (event_position obs) exps = map Some ps" by blast
  have "event_errors obs e = []" if "e \<in> set exps" for e
  proof -
    have "event_position obs e \<in> set (map Some ps)"
      using that ps[symmetric] by simp
    then show ?thesis by (auto simp: event_errors_Nil)
  qed
  then show "concat (map (event_errors obs) exps) = []" by simp
qed

text \<open>
  Claim C2. When the matching loop has appended errors, the order check is skipped: the
  errors are exactly those of the loop and none of them is an \<open>OrderMismatch\<close>. The loop
  appends no error exactly when every expected event has a matched position; then the
  result holds one \<open>OrderMismatch i (i + 1)\<close> for every adjacent pair whose positions are
  not strictly increasing, and nothing else. In particular, when the position of event 2
  is before that of event 1 and every other adjacent pair is in order, the result is the
  single error \<open>OrderMismatch 1 2\<close>.
\<close>

theorem C2_order_check:
  "(concat (map (event_errors obs) exps) \<noteq> [] \<longrightarrow>
      check_events obs exps = Inr (concat (map (event_errors obs) exps))
      \<and> (\<forall>a b. OrderMismatch a b \<notin> set (concat (map (event_errors obs) exps))))
   \<and> (concat (map (event_errors obs) exps) = [] \<longleftrightarrow>
        (\<exists>qs. map (event_position obs) exps = map Some qs))
   \<and> (map (event_position obs) exps = map Some ps \<longrightarrow>
        check_events obs exps
          = Inr (map (\<lambda>i. OrderMismatch i (Suc i))
                   (filter (\<lambda>i. ps ! i \<ge> ps ! Suc i) [0 ..< length ps - 1])))
   \<and> (map (event_position obs) exps = map Some (p0 # p1 # p2 # rest)
        \<and> p0 < p1 \<and> p2 < p1 \<and> sorted_wrt (<) (p2 # rest) \<longrightarrow>
        check_events obs exps = Inr [OrderMismatch 1 2])"
proof -
  have a: "concat (map (event_errors obs) exps) \<noteq> [] \<longrightarrow>
      check_events obs exps = Inr (concat (map (event_errors obs) exps))
      \<and> (\<forall>a b. OrderMismatch a b \<notin> set (concat (map (event_errors obs) exps)))"
    using check_events_errors[of obs exps] event_errors_no_order[of _ _ obs]
    unfolding set_concat set_map by blast
  have b: "concat (map (event_errors obs) exps) = [] \<longleftrightarrow>
        (\<exists>qs. map (event_position obs) exps = map Some qs)"
    by (rule matched_iff)
  have c: "map (event_position obs) exps = map Some ps \<longrightarrow>
        check_events obs exps
          = Inr (map (\<lambda>i. OrderMismatch i (Suc i))
                   (filter (\<lambda>i. ps ! i \<ge> ps ! Suc i) [0 ..< length ps - 1]))"
    using check_events_list by blast
  have d: "map (event_position obs) exps = map Some (p0 # p1 # p2 # rest)
        \<and> p0 < p1 \<and> p2 < p1 \<and> sorted_wrt (<) (p2 # rest) \<longrightarrow>
        check_events obs exps = Inr [OrderMismatch 1 2]"
  proof
    assume h: "map (event_position obs) exps = map Some (p0 # p1 # p2 # rest)
        \<and> p0 < p1 \<and> p2 < p1 \<and> sorted_wrt (<) (p2 # rest)"
    then have sw: "filter (\<lambda>i. (p0 # p1 # p2 # rest) ! i \<ge> (p0 # p1 # p2 # rest) ! Suc i)
           [0 ..< length (p0 # p1 # p2 # rest) - 1] = [1]"
      using order_swap[of p0 p1 p2 rest] by blast
    from h have "check_events obs exps
          = Inr (map (\<lambda>i. OrderMismatch i (Suc i))
                   (filter (\<lambda>i. (p0 # p1 # p2 # rest) ! i \<ge> (p0 # p1 # p2 # rest) ! Suc i)
                      [0 ..< length (p0 # p1 # p2 # rest) - 1]))"
      using check_events_list[of obs exps "p0 # p1 # p2 # rest"] by blast
    then show "check_events obs exps = Inr [OrderMismatch 1 2]"
      unfolding sw by simp
  qed
  show ?thesis by (rule conjI[OF a conjI[OF b conjI[OF c d]]])
qed

lemma sample_swapped_positions:
  "map (event_position [sample_w0, sample_w2, sample_w1, sample_w3, sample_w4, sample_w5])
       sample_EXP = map Some [0, 2, 1, 3, 4, 5]"
  by (simp add: sample_defs event_position_def skew_offsets_def hit_def)

theorem C2_order_check_witness:
  "check_events [sample_w0, sample_w2, sample_w1, sample_w3, sample_w4, sample_w5] sample_EXP
     = Inr [OrderMismatch 1 2]"
  using C2_order_check[where obs = "[sample_w0, sample_w2, sample_w1, sample_w3, sample_w4, sample_w5]"
      and exps = sample_EXP and ?p0.0 = 0 and ?p1.0 = 2 and ?p2.0 = 1 and rest = "[3, 4, 5]"]
    sample_swapped_positions
  by simp

subsection \<open>Observed events are not consumed\<close>

lemma duplicate_detected:
  assumes "i < j" "j < length exps" "concat (map (event_errors obs) exps) = []"
    "event_position obs (exps ! i) = event_position obs (exps ! j)"
  shows "\<exists>errs a. check_events obs exps = Inr errs \<and> i \<le> a \<and> a < j
           \<and> OrderMismatch a (Suc a) \<in> set errs"
proof -
  from assms(3) obtain ps where ps: "map (event_position obs) exps = map Some ps"
    using matched_iff by blast
  have len: "length ps = length exps" using ps by (metis length_map)
  have nth: "event_position obs (exps ! n) = Some (ps ! n)" if "n < length exps" for n
  proof -
    have "map (event_position obs) exps ! n = map Some ps ! n" using ps by simp
    then show ?thesis using that len by simp
  qed
  have "ps ! i = ps ! j" using nth[of i] nth[of j] assms(1,2,4) by simp
  then have "\<not> (\<forall>a. i \<le> a \<and> a < j \<longrightarrow> ps ! a < ps ! Suc a)"
    using chain_less[of i j "\<lambda>n. ps ! n"] assms(1) by auto
  then obtain a where a: "i \<le> a" "a < j" "ps ! a \<ge> ps ! Suc a" by auto
  have "a \<in> set [0 ..< length ps - 1]" using a(2) assms(2) len by simp
  then have "a \<in> set (filter (\<lambda>i. ps ! i \<ge> ps ! Suc i) [0 ..< length ps - 1])"
    using a(3) by simp
  then have "OrderMismatch a (Suc a)
      \<in> set (map (\<lambda>i. OrderMismatch i (Suc i))
                (filter (\<lambda>i. ps ! i \<ge> ps ! Suc i) [0 ..< length ps - 1]))"
    unfolding set_map by (rule imageI)
  then show ?thesis using check_events_list[OF ps] a(1,2) by blast
qed

text \<open>
  Claim C10. The position stored for an expected event is the result of searching the
  whole observed list from index 0 for that event alone; it does not depend on what was
  stored for the other expected events. So two expected events that select the same
  observed index are both given that index, and the matching loop appends no error for
  either. When the order check runs, such a pair \<open>i < j\<close> always makes it report an
  adjacent pair between \<open>i\<close> and \<open>j\<close>.
\<close>

theorem C10_no_consumption:
  "(\<forall>i<length exps.
      snd (match_loop obs (List.enumerate 0 exps) ([], Map.empty)) i
        = event_position obs (exps ! i))
   \<and> (\<forall>i j k. i < length exps \<and> j < length exps
         \<and> event_position obs (exps ! i) = Some k \<and> event_position obs (exps ! j) = Some k \<longrightarrow>
         snd (match_loop obs (List.enumerate 0 exps) ([], Map.empty)) i = Some k
         \<and> snd (match_loop obs (List.enumerate 0 exps) ([], Map.empty)) j = Some k
         \<and> event_errors obs (exps ! i) = [] \<and> event_errors obs (exps ! j) = [])
   \<and> (\<forall>i j. i < j \<and> j < length exps \<and> concat (map (event_errors obs) exps) = []
         \<and> event_position obs (exps ! i) = event_position obs (exps ! j) \<longrightarrow>
         (\<exists>errs a. check_events obs exps = Inr errs \<and> i \<le> a \<and> a < j
            \<and> OrderMismatch a (Suc a) \<in> set errs))"
proof -
  have a: "\<forall>i<length exps.
      snd (match_loop obs (List.enumerate 0 exps) ([], Map.empty)) i
        = event_position obs (exps ! i)"
    by (simp add: match_positions)
  have b: "\<forall>i j k. i < length exps \<and> j < length exps
         \<and> event_position obs (exps ! i) = Some k \<and> event_position obs (exps ! j) = Some k \<longrightarrow>
         snd (match_loop obs (List.enumerate 0 exps) ([], Map.empty)) i = Some k
         \<and> snd (match_loop obs (List.enumerate 0 exps) ([], Map.empty)) j = Some k
         \<and> event_errors obs (exps ! i) = [] \<and> event_errors obs (exps ! j) = []"
    by (simp add: match_positions event_errors_Nil)
  have c: "\<forall>i j. i < j \<and> j < length exps \<and> concat (map (event_errors obs) exps) = []
         \<and> event_position obs (exps ! i) = event_position obs (exps ! j) \<longrightarrow>
         (\<exists>errs a. check_events obs exps = Inr errs \<and> i \<le> a \<and> a < j
            \<and> OrderMismatch a (Suc a) \<in> set errs)"
    using duplicate_detected[of _ _ exps obs] by blast
  show ?thesis by (rule conjI[OF a conjI[OF b c]])
qed

theorem C10_no_consumption_witness:
  "snd (match_loop [sample_w0]
          (List.enumerate 0 [\<lparr>e_pc = Some 0x40, e_addr = 0x2000, e_data = 0x12345678, e_mask = 0xF\<rparr>,
                             \<lparr>e_pc = Some 0x3E, e_addr = 0x2000, e_data = 0x12345678, e_mask = 0xF\<rparr>])
          ([], Map.empty)) 0 = Some 0
   \<and> snd (match_loop [sample_w0]
          (List.enumerate 0 [\<lparr>e_pc = Some 0x40, e_addr = 0x2000, e_data = 0x12345678, e_mask = 0xF\<rparr>,
                             \<lparr>e_pc = Some 0x3E, e_addr = 0x2000, e_data = 0x12345678, e_mask = 0xF\<rparr>])
          ([], Map.empty)) 1 = Some 0
   \<and> (\<exists>errs. check_events [sample_w0]
          [\<lparr>e_pc = Some 0x40, e_addr = 0x2000, e_data = 0x12345678, e_mask = 0xF\<rparr>,
           \<lparr>e_pc = Some 0x3E, e_addr = 0x2000, e_data = 0x12345678, e_mask = 0xF\<rparr>] = Inr errs
        \<and> OrderMismatch 0 1 \<in> set errs)"
proof -
  let ?exps = "[\<lparr>e_pc = Some 0x40, e_addr = 0x2000, e_data = 0x12345678, e_mask = 0xF\<rparr>,
           \<lparr>e_pc = Some 0x3E, e_addr = 0x2000, e_data = 0x12345678, e_mask = 0xF\<rparr>]"
  have p0: "event_position [sample_w0] (?exps ! 0) = Some 0"
    by (simp add: sample_defs event_position_def skew_offsets_def hit_def)
  have p1: "event_position [sample_w0] (?exps ! 1) = Some 0"
    by (simp add: sample_defs event_position_def skew_offsets_def hit_def)
  have e: "concat (map (event_errors [sample_w0]) ?exps) = []"
    by (simp add: sample_defs event_errors_def skew_offsets_def hit_def)
  note t = C10_no_consumption[where obs = "[sample_w0]" and exps = ?exps]
  have a: "snd (match_loop [sample_w0] (List.enumerate 0 ?exps) ([], Map.empty)) 0 = Some 0
     \<and> snd (match_loop [sample_w0] (List.enumerate 0 ?exps) ([], Map.empty)) 1 = Some 0"
    using t[THEN conjunct2, THEN conjunct1, rule_format, of 0 1 0] p0 p1 by simp
  have "\<exists>errs a. check_events [sample_w0] ?exps = Inr errs \<and> 0 \<le> a \<and> a < 1
            \<and> OrderMismatch a (Suc a) \<in> set errs"
    using t[THEN conjunct2, THEN conjunct2, rule_format, of 0 1] p0 p1 e by simp
  then have c: "\<exists>errs. check_events [sample_w0] ?exps = Inr errs \<and> OrderMismatch 0 1 \<in> set errs"
    by auto
  from a c show ?thesis by blast
qed

subsection \<open>The write to g_data0 and the misaligned store\<close>

lemma spurious_check_cases:
  "spurious_check obs g errs =
     (if (\<exists>w. filter (\<lambda>w. m_addr w = g) obs = [w] \<and> m_data w = 0x12345678 \<and> m_mask w = 0xF)
      then errs
      else errs @ [ExtraWrite (length (filter (\<lambda>w. m_addr w = g) obs))])"
  by (auto simp: spurious_check_def Let_def split: list.splits)

text \<open>
  Claim C7. The check of the writes to \<open>g_data0\<close> appends no error exactly when the
  observed list holds exactly one write to that address and this write carries the data
  0x12345678 and the mask 0xF; otherwise it appends exactly one error. Two writes to the
  address with the expected data and mask give one error; a single such write gives none.
\<close>

theorem C7_spurious_write:
  "(spurious_check obs g errs = errs \<longleftrightarrow>
      (\<exists>w. filter (\<lambda>w. m_addr w = g) obs = [w] \<and> m_data w = 0x12345678 \<and> m_mask w = 0xF))
   \<and> (spurious_check obs g errs \<noteq> errs \<longrightarrow>
        spurious_check obs g errs = errs @ [ExtraWrite (length (filter (\<lambda>w. m_addr w = g) obs))])
   \<and> (m_addr w1 = g \<and> m_data w1 = 0x12345678 \<and> m_mask w1 = 0xF
        \<and> m_addr w2 = g \<and> m_data w2 = 0x12345678 \<and> m_mask w2 = 0xF
        \<and> (\<forall>w\<in>set pre \<union> set mid \<union> set post. m_addr w \<noteq> g) \<longrightarrow>
        spurious_check (pre @ w1 # mid @ w2 # post) g errs = errs @ [ExtraWrite 2])
   \<and> (m_addr w1 = g \<and> m_data w1 = 0x12345678 \<and> m_mask w1 = 0xF
        \<and> (\<forall>w\<in>set pre \<union> set post. m_addr w \<noteq> g) \<longrightarrow>
        spurious_check (pre @ w1 # post) g errs = errs)"
proof -
  have a: "spurious_check obs g errs = errs \<longleftrightarrow>
      (\<exists>w. filter (\<lambda>w. m_addr w = g) obs = [w] \<and> m_data w = 0x12345678 \<and> m_mask w = 0xF)"
    unfolding spurious_check_cases by simp
  have b: "spurious_check obs g errs \<noteq> errs \<longrightarrow>
        spurious_check obs g errs = errs @ [ExtraWrite (length (filter (\<lambda>w. m_addr w = g) obs))]"
    unfolding spurious_check_cases by simp
  have nil: "filter (\<lambda>w. m_addr w = g) xs = []" if "\<forall>w\<in>set xs. m_addr w \<noteq> g" for xs
    using that by (simp add: filter_empty_conv)
  have c: "m_addr w1 = g \<and> m_data w1 = 0x12345678 \<and> m_mask w1 = 0xF
        \<and> m_addr w2 = g \<and> m_data w2 = 0x12345678 \<and> m_mask w2 = 0xF
        \<and> (\<forall>w\<in>set pre \<union> set mid \<union> set post. m_addr w \<noteq> g) \<longrightarrow>
        spurious_check (pre @ w1 # mid @ w2 # post) g errs = errs @ [ExtraWrite 2]"
  proof
    assume h: "m_addr w1 = g \<and> m_data w1 = 0x12345678 \<and> m_mask w1 = 0xF
        \<and> m_addr w2 = g \<and> m_data w2 = 0x12345678 \<and> m_mask w2 = 0xF
        \<and> (\<forall>w\<in>set pre \<union> set mid \<union> set post. m_addr w \<noteq> g)"
    then have "filter (\<lambda>w. m_addr w = g) (pre @ w1 # mid @ w2 # post) = [w1, w2]"
      using nil[of pre] nil[of mid] nil[of post] by simp
    then show "spurious_check (pre @ w1 # mid @ w2 # post) g errs = errs @ [ExtraWrite 2]"
      unfolding spurious_check_cases by simp
  qed
  have d: "m_addr w1 = g \<and> m_data w1 = 0x12345678 \<and> m_mask w1 = 0xF
        \<and> (\<forall>w\<in>set pre \<union> set post. m_addr w \<noteq> g) \<longrightarrow>
        spurious_check (pre @ w1 # post) g errs = errs"
  proof
    assume h: "m_addr w1 = g \<and> m_data w1 = 0x12345678 \<and> m_mask w1 = 0xF
        \<and> (\<forall>w\<in>set pre \<union> set post. m_addr w \<noteq> g)"
    then have "filter (\<lambda>w. m_addr w = g) (pre @ w1 # post) = [w1]"
      using nil[of pre] nil[of post] by simp
    then show "spurious_check (pre @ w1 # post) g errs = errs"
      unfolding spurious_check_cases using h by simp
  qed
  show ?thesis by (rule conjI[OF a conjI[OF b conjI[OF c d]]])
qed

theorem C7_spurious_write_witness:
  "spurious_check [sample_w0, sample_w1, sample_w0, sample_w5] 0x2000 [] = [ExtraWrite 2]
   \<and> spurious_check [sample_w0, sample_w1, sample_w5] 0x2000 [] = []"
proof -
  have a: "spurious_check ([] @ sample_w0 # [sample_w1] @ sample_w0 # [sample_w5]) 0x2000 []
             = [] @ [ExtraWrite 2]"
    by (rule C7_spurious_write[THEN conjunct2, THEN conjunct2, THEN conjunct1, rule_format])
       (simp add: sample_defs)
  have b: "spurious_check ([] @ sample_w0 # [sample_w1, sample_w5]) 0x2000 [] = []"
    by (rule C7_spurious_write[THEN conjunct2, THEN conjunct2, THEN conjunct2, rule_format])
       (simp add: sample_defs)
  from a b show ?thesis by simp
qed

text \<open>
  Claim C8. With the address \<open>p\<close> of the misaligned store known, the negative check
  appends an error exactly when some observed memory write has pc \<open>p\<close>, and then exactly
  one; addr, data and mask play no part, so the error is also raised when that write is
  the one matched for an expected event.
\<close>

theorem C8_misaligned_write:
  "(misaligned_check obs (Some p) errs \<noteq> errs \<longleftrightarrow> (\<exists>w\<in>set obs. m_pc w = p))
   \<and> ((\<exists>w\<in>set obs. m_pc w = p) \<longrightarrow>
        misaligned_check obs (Some p) errs = errs @ [UnexpectedMEMW])
   \<and> (w \<in> set obs \<and> m_pc w = p \<and> event_position obs e = Some k \<and> obs ! k = w \<longrightarrow>
        misaligned_check obs (Some p) errs = errs @ [UnexpectedMEMW])"
  by (auto simp: misaligned_check_def list_ex_iff)

theorem C8_misaligned_write_witness:
  "event_position [\<lparr>m_pc = 0x44, m_addr = 0x2000, m_data = 0x12345678, m_mask = 0xF\<rparr>]
      \<lparr>e_pc = Some 0x40, e_addr = 0x2000, e_data = 0x12345678, e_mask = 0xF\<rparr> = Some 0
   \<and> misaligned_check [\<lparr>m_pc = 0x44, m_addr = 0x2000, m_data = 0x12345678, m_mask = 0xF\<rparr>]
        (Some 0x44) [] = [UnexpectedMEMW]"
proof -
  let ?w = "\<lparr>m_pc = 0x44, m_addr = 0x2000, m_data = 0x12345678, m_mask = 0xF\<rparr>"
  let ?e = "\<lparr>e_pc = Some 0x40, e_addr = 0x2000, e_data = 0x12345678, e_mask = 0xF\<rparr>"
  have p: "event_position [?w] ?e = Some 0"
    by (simp add: event_position_def skew_offsets_def hit_def)
  have "misaligned_check [?w] (Some 0x44) [] = [] @ [UnexpectedMEMW]"
    using C8_misaligned_write[where obs = "[?w]" and p = "0x44" and w = ?w and e = ?e and k = 0
        and errs = "[]", THEN conjunct2, THEN conjunct2] p
    by simp
  then show ?thesis using p by simp
qed

subsection \<open>The disassembly scan\<close>

lemma scan_block_last:
  "scan_block rd ls acc =
     (case filter (\<lambda>l. line_write rd l \<noteq> None) (takeWhile (\<lambda>l. next_label_re l = None) ls) of
        [] \<Rightarrow> acc
      | c # cs \<Rightarrow> line_write rd (last (c # cs)))"
proof (induction ls arbitrary: acc)
  case Nil
  then show ?case by simp
next
  case (Cons l ls)
  show ?case
  proof (cases "next_label_re l = None")
    case False
    then show ?thesis by auto
  next
    case True
    show ?thesis
    proof (cases "line_write rd l")
      case None
      then show ?thesis using True Cons.IH[of acc] by simp
    next
      case (Some pc)
      then show ?thesis using True Cons.IH[of "Some pc"]
        by (simp split: list.splits)
    qed
  qed
qed

lemma find_label_dropWhile:
  "find_label label ls i =
     (if dropWhile (\<lambda>l. label_re label l = None) ls = [] then None
      else Some (i + length (takeWhile (\<lambda>l. label_re label l = None) ls) + 1))"
  by (induction ls arbitrary: i) auto

lemma drop_after_first:
  "drop (length (takeWhile P xs) + 1) xs = tl (dropWhile P xs)"
  by (induction xs) auto

lemma last_filter_index:
  "filter P xs \<noteq> [] \<Longrightarrow>
     \<exists>j<length xs. xs ! j = last (filter P xs) \<and> P (xs ! j)
        \<and> (\<forall>k. j < k \<and> k < length xs \<longrightarrow> \<not> P (xs ! k))"
proof (induction xs rule: rev_induct)
  case Nil
  then show ?case by simp
next
  case (snoc x xs)
  show ?case
  proof (cases "P x")
    case True
    have "length xs < length (xs @ [x]) \<and> (xs @ [x]) ! length xs = last (filter P (xs @ [x]))
        \<and> P ((xs @ [x]) ! length xs)
        \<and> (\<forall>k. length xs < k \<and> k < length (xs @ [x]) \<longrightarrow> \<not> P ((xs @ [x]) ! k))"
      using True by auto
    then show ?thesis by blast
  next
    case False
    then have "filter P xs \<noteq> []" using snoc.prems by simp
    from snoc.IH[OF this] obtain j where j: "j < length xs" "xs ! j = last (filter P xs)"
      "P (xs ! j)" "\<forall>k. j < k \<and> k < length xs \<longrightarrow> \<not> P (xs ! k)" by blast
    have "\<not> P ((xs @ [x]) ! k)" if "j < k" "k < length (xs @ [x])" for k
    proof (cases "k < length xs")
      case True
      then show ?thesis using j(4) that(1) by (simp add: nth_append)
    next
      case False
      then have "k = length xs" using that(2) by simp
      then show ?thesis using \<open>\<not> P x\<close> by simp
    qed
    then have "j < length (xs @ [x]) \<and> (xs @ [x]) ! j = last (filter P (xs @ [x]))
        \<and> P ((xs @ [x]) ! j)
        \<and> (\<forall>k. j < k \<and> k < length (xs @ [x]) \<longrightarrow> \<not> P ((xs @ [x]) ! k))"
      using j(1,2,3) False by (simp add: nth_append)
    then show ?thesis by blast
  qed
qed

lemma parse_objdump_block:
  "parse_objdump_for_final_reg_pc (Some lines) label rd =
     (case filter (\<lambda>l. line_write rd l \<noteq> None)
             (takeWhile (\<lambda>l. next_label_re l = None)
                (tl (dropWhile (\<lambda>l. label_re label l = None) lines))) of
        [] \<Rightarrow> None
      | c # cs \<Rightarrow> line_write rd (last (c # cs)))"
proof (cases "dropWhile (\<lambda>l. label_re label l = None) lines = []")
  case True
  have "find_label label lines 0 = None"
    unfolding find_label_dropWhile True by simp
  then show ?thesis
    unfolding True by (simp add: parse_objdump_for_final_reg_pc_def)
next
  case False
  then have "find_label label lines 0
      = Some (length (takeWhile (\<lambda>l. label_re label l = None) lines) + 1)"
    by (simp add: find_label_dropWhile)
  then show ?thesis
    by (simp only: parse_objdump_for_final_reg_pc_def option.case drop_after_first
          scan_block_last)
qed

lemma last_filter_unique:
  assumes "j < length xs" "P (xs ! j)" "\<forall>k. j < k \<and> k < length xs \<longrightarrow> \<not> P (xs ! k)"
  shows "filter P xs \<noteq> [] \<and> last (filter P xs) = xs ! j"
proof -
  have ne: "filter P xs \<noteq> []"
    using assms(1,2) by (auto simp: filter_empty_conv)
  from last_filter_index[OF ne] obtain i where i: "i < length xs" "xs ! i = last (filter P xs)"
    "P (xs ! i)" "\<forall>k. i < k \<and> k < length xs \<longrightarrow> \<not> P (xs ! k)" by blast
  have "\<not> i < j" using i(4) assms(1,2) by blast
  moreover have "\<not> j < i" using assms(3) i(1,3) by blast
  ultimately have "i = j" by simp
  then show ?thesis using ne i(2) by simp
qed

lemma parse_objdump_index:
  assumes "block = takeWhile (\<lambda>l. next_label_re l = None)
                     (tl (dropWhile (\<lambda>l. label_re label l = None) lines))"
  shows "parse_objdump_for_final_reg_pc (Some lines) label rd = Some pc \<longleftrightarrow>
           (\<exists>j<length block. line_write rd (block ! j) = Some pc
              \<and> (\<forall>k. j < k \<and> k < length block \<longrightarrow> line_write rd (block ! k) = None))"
proof -
  let ?P = "\<lambda>l. line_write rd l \<noteq> None"
  have eq: "parse_objdump_for_final_reg_pc (Some lines) label rd =
     (case filter ?P block of [] \<Rightarrow> None | c # cs \<Rightarrow> line_write rd (last (c # cs)))"
    unfolding assms by (rule parse_objdump_block)
  show ?thesis
  proof
    assume r: "parse_objdump_for_final_reg_pc (Some lines) label rd = Some pc"
    then have ne: "filter ?P block \<noteq> []" using eq by (auto split: list.splits)
    then have "line_write rd (last (filter ?P block)) = Some pc"
      using r eq by (auto split: list.splits)
    moreover from last_filter_index[OF ne] obtain j where "j < length block"
      "block ! j = last (filter ?P block)"
      "\<forall>k. j < k \<and> k < length block \<longrightarrow> \<not> ?P (block ! k)" by blast
    ultimately show "\<exists>j<length block. line_write rd (block ! j) = Some pc
              \<and> (\<forall>k. j < k \<and> k < length block \<longrightarrow> line_write rd (block ! k) = None)"
      by auto
  next
    assume "\<exists>j<length block. line_write rd (block ! j) = Some pc
              \<and> (\<forall>k. j < k \<and> k < length block \<longrightarrow> line_write rd (block ! k) = None)"
    then obtain j where j: "j < length block" "line_write rd (block ! j) = Some pc"
      "\<forall>k. j < k \<and> k < length block \<longrightarrow> line_write rd (block ! k) = None" by blast
    have "filter ?P block \<noteq> [] \<and> last (filter ?P block) = block ! j"
      by (rule last_filter_unique) (use j in auto)
    then show "parse_objdump_for_final_reg_pc (Some lines) label rd = Some pc"
      using eq j(2) by (auto split: list.splits)
  qed
qed

lemma parse_objdump_two_writes:
  assumes "\<forall>l\<in>set pre. label_re label l = None" "label_re label h \<noteq> None"
    "next_label_re l1 = None" "next_label_re l2 = None"
    "line_write rd l1 = Some pc1" "line_write rd l2 = Some pc2"
    "\<forall>l\<in>set (takeWhile (\<lambda>l. next_label_re l = None) post). line_write rd l = None"
  shows "parse_objdump_for_final_reg_pc (Some (pre @ h # l1 # l2 # post)) label rd = Some pc2"
proof -
  have d: "dropWhile (\<lambda>l. label_re label l = None) (pre @ h # l1 # l2 # post)
             = h # l1 # l2 # post"
  proof -
    have "\<not> (label_re label h = None)" using assms(2) by simp
    then have "dropWhile (\<lambda>l. label_re label l = None) (pre @ h # l1 # l2 # post)
        = dropWhile (\<lambda>l. label_re label l = None) pre @ h # l1 # l2 # post"
      by (rule dropWhile_append3)
    moreover have "dropWhile (\<lambda>l. label_re label l = None) pre = []"
      using assms(1) by simp
    ultimately show ?thesis by simp
  qed
  have t: "filter (\<lambda>l. line_write rd l \<noteq> None)
             (takeWhile (\<lambda>l. next_label_re l = None) post) = []"
    using assms(7) by (simp add: filter_empty_conv)
  have "filter (\<lambda>l. line_write rd l \<noteq> None)
          (takeWhile (\<lambda>l. next_label_re l = None) (l1 # l2 # post)) = [l1, l2]"
    using assms(3,4,5,6) t by simp
  then show ?thesis
    unfolding parse_objdump_block d using assms(6) by simp
qed

lemma sample_hdr_t0_label: "label_re ''L_LI_T0'' sample_hdr_t0 = Some [''00000080'']"
  by code_simp

lemma sample_hdr_t1_next: "next_label_re sample_hdr_t1 = Some []"
  by code_simp

lemma sample_lui_next: "next_label_re sample_lui = None"
  by code_simp

lemma sample_addi_next: "next_label_re sample_addi = None"
  by code_simp

lemma sample_sw_next: "next_label_re sample_sw = None"
  by code_simp

lemma sample_c_swsp_next: "next_label_re sample_c_swsp = None"
  by code_simp

lemma sample_lui_write: "line_write 5 sample_lui = Some 0x80"
  by code_simp

lemma sample_addi_write: "line_write 5 sample_addi = Some 0x84"
  by code_simp

lemma sample_sw_write: "line_write 5 sample_sw = None"
  by code_simp

lemma sample_c_swsp_insn: "insn_re sample_c_swsp = Some [''88'', ''c.swsp'', ''t0,4(sp)'']"
  by code_simp

lemma sample_c_swsp_write: "line_write 5 sample_c_swsp = Some 0x88"
  by code_simp

text \<open>
  What the scan computes, a candidate being a line that passes the test of lines 107 to
  120 (\<open>line_write\<close>): nothing when the listing is missing, when no line introduces the
  label, and when no line of the label's block is a candidate; otherwise the pc of the
  candidate at the largest line position of the block, the block being the lines after
  the first line that introduces the label, up to the next label header.
\<close>

lemma scan_last_candidate:
  "parse_objdump_for_final_reg_pc None label rd = None
   \<and> ((\<forall>l\<in>set lines. label_re label l = None) \<longrightarrow>
        parse_objdump_for_final_reg_pc (Some lines) label rd = None)
   \<and> (\<forall>block. block = takeWhile (\<lambda>l. next_label_re l = None)
                          (tl (dropWhile (\<lambda>l. label_re label l = None) lines)) \<longrightarrow>
        ((\<forall>l\<in>set block. line_write rd l = None) \<longrightarrow>
           parse_objdump_for_final_reg_pc (Some lines) label rd = None)
        \<and> (\<forall>pc. parse_objdump_for_final_reg_pc (Some lines) label rd = Some pc \<longleftrightarrow>
              (\<exists>j<length block. line_write rd (block ! j) = Some pc
                 \<and> (\<forall>k. j < k \<and> k < length block \<longrightarrow> line_write rd (block ! k) = None))))
   \<and> ((\<forall>l\<in>set pre. label_re label l = None) \<and> label_re label h \<noteq> None
        \<and> next_label_re l1 = None \<and> next_label_re l2 = None
        \<and> line_write rd l1 = Some pc1 \<and> line_write rd l2 = Some pc2
        \<and> (\<forall>l\<in>set (takeWhile (\<lambda>l. next_label_re l = None) post). line_write rd l = None) \<longrightarrow>
        parse_objdump_for_final_reg_pc (Some (pre @ h # l1 # l2 # post)) label rd = Some pc2)"
proof -
  have a: "parse_objdump_for_final_reg_pc None label rd = None"
    by (simp add: parse_objdump_for_final_reg_pc_def)
  have b: "(\<forall>l\<in>set lines. label_re label l = None) \<longrightarrow>
        parse_objdump_for_final_reg_pc (Some lines) label rd = None"
  proof
    assume "\<forall>l\<in>set lines. label_re label l = None"
    then have dw: "dropWhile (\<lambda>l. label_re label l = None) lines = []" by simp
    show "parse_objdump_for_final_reg_pc (Some lines) label rd = None"
      unfolding parse_objdump_block dw by simp
  qed
  have c: "\<forall>block. block = takeWhile (\<lambda>l. next_label_re l = None)
                          (tl (dropWhile (\<lambda>l. label_re label l = None) lines)) \<longrightarrow>
        ((\<forall>l\<in>set block. line_write rd l = None) \<longrightarrow>
           parse_objdump_for_final_reg_pc (Some lines) label rd = None)
        \<and> (\<forall>pc. parse_objdump_for_final_reg_pc (Some lines) label rd = Some pc \<longleftrightarrow>
              (\<exists>j<length block. line_write rd (block ! j) = Some pc
                 \<and> (\<forall>k. j < k \<and> k < length block \<longrightarrow> line_write rd (block ! k) = None)))"
  proof (intro allI impI conjI)
    fix block
    assume blk: "block = takeWhile (\<lambda>l. next_label_re l = None)
                          (tl (dropWhile (\<lambda>l. label_re label l = None) lines))"
    assume "\<forall>l\<in>set block. line_write rd l = None"
    then have "filter (\<lambda>l. line_write rd l \<noteq> None) block = []"
      by (simp add: filter_empty_conv)
    then show "parse_objdump_for_final_reg_pc (Some lines) label rd = None"
      unfolding parse_objdump_block blk[symmetric] by simp
  next
    fix block pc
    assume blk: "block = takeWhile (\<lambda>l. next_label_re l = None)
                          (tl (dropWhile (\<lambda>l. label_re label l = None) lines))"
    show "parse_objdump_for_final_reg_pc (Some lines) label rd = Some pc \<longleftrightarrow>
              (\<exists>j<length block. line_write rd (block ! j) = Some pc
                 \<and> (\<forall>k. j < k \<and> k < length block \<longrightarrow> line_write rd (block ! k) = None))"
      by (rule parse_objdump_index[OF blk])
  qed
  have d: "(\<forall>l\<in>set pre. label_re label l = None) \<and> label_re label h \<noteq> None
        \<and> next_label_re l1 = None \<and> next_label_re l2 = None
        \<and> line_write rd l1 = Some pc1 \<and> line_write rd l2 = Some pc2
        \<and> (\<forall>l\<in>set (takeWhile (\<lambda>l. next_label_re l = None) post). line_write rd l = None) \<longrightarrow>
        parse_objdump_for_final_reg_pc (Some (pre @ h # l1 # l2 # post)) label rd = Some pc2"
    using parse_objdump_two_writes[of pre label h l1 l2 rd pc1 pc2 post] by blast
  show ?thesis by (rule conjI[OF a conjI[OF b conjI[OF c d]]])
qed

lemma scan_last_candidate_sample:
  "parse_objdump_for_final_reg_pc
     (Some [sample_hdr_t0, sample_lui, sample_addi, sample_sw, sample_hdr_t1]) ''L_LI_T0'' 5
     = Some 0x84"
proof -
  have "parse_objdump_for_final_reg_pc
     (Some ([] @ sample_hdr_t0 # sample_lui # sample_addi # [sample_sw, sample_hdr_t1]))
     ''L_LI_T0'' 5 = Some 0x84"
    by (rule scan_last_candidate[THEN conjunct2, THEN conjunct2, THEN conjunct2, rule_format,
          where ?pc1.0 = "0x80"])
       (simp add: sample_hdr_t0_label sample_hdr_t1_next sample_lui_next sample_addi_next
          sample_sw_next sample_lui_write sample_addi_write sample_sw_write)
  then show ?thesis by simp
qed

text \<open>
  Claim C5 says that the scan returns the last write to the register before the block is
  left, the second of two writes to the same register. The block of \<open>L_LI_T0\<close> holds two
  writes to t0, at 0x80 and 0x84, and the scan of these two lines alone returns 0x84.
  With the compressed store \<open>c.swsp t0,4(sp)\<close> after them the scan returns 0x88, the pc
  of the store.
\<close>

theorem C5_store_returned_as_last_write:
  "line_write 5 sample_lui = Some 0x80
   \<and> line_write 5 sample_addi = Some 0x84
   \<and> parse_objdump_for_final_reg_pc (Some [sample_hdr_t0, sample_lui, sample_addi])
        ''L_LI_T0'' 5 = Some 0x84
   \<and> parse_objdump_for_final_reg_pc
        (Some [sample_hdr_t0, sample_lui, sample_addi, sample_c_swsp]) ''L_LI_T0'' 5
        = Some 0x88"
  by code_simp

text \<open>
  Claim C6 says that no store instruction, compressed or not, is ever a candidate write.
  The scan accepts every mnemonic that starts with \<open>c.\<close>: the compressed store
  \<open>c.swsp t0,4(sp)\<close> passes the test for register 5, and a block that ends with it yields
  the pc of the store, 0x88, and not the pc 0x84 of the last write to t0.
\<close>

theorem C6_compressed_store_is_candidate:
  "writes_reg 5 ''c.swsp'' ''t0,4(sp)''
   \<and> insn_re sample_c_swsp = Some [''88'', ''c.swsp'', ''t0,4(sp)'']
   \<and> parse_objdump_for_final_reg_pc
        (Some [sample_hdr_t0, sample_lui, sample_addi, sample_c_swsp, sample_hdr_t1])
        ''L_LI_T0'' 5 = Some 0x88"
  by code_simp

subsection \<open>The register checks\<close>

lemma resolve_loop_errors:
  "fst (resolve_loop od es (errs, m))
     = errs @ map (\<lambda>e. ObjdumpPCNotFound (x_label e))
                (filter (\<lambda>e. parse_objdump_for_final_reg_pc od (x_label e) (x_rd e) = None) es)"
  by (induction es arbitrary: errs m) (auto split: option.splits)



lemma reg_loop_set:
  "set (reg_loop regs fpm es errs)
     = set errs \<union> {MissingREG pc (x_rd e) (x_val e) (x_label e) | e pc.
                      e \<in> set es \<and> fpm (x_label e) = Some pc
                      \<and> \<not> (\<exists>w\<in>set regs. r_pc w = pc \<and> r_rd w = x_rd e \<and> r_val w = x_val e)}"
proof (induction es arbitrary: errs)
  case Nil
  then show ?case by simp
next
  case (Cons a es)
  show ?case
  proof (cases "fpm (x_label a)")
    case None
    then show ?thesis using Cons.IH[of errs] by auto
  next
    case (Some pc)
    show ?thesis
    proof (cases "\<exists>w\<in>set regs. r_pc w = pc \<and> r_rd w = x_rd a \<and> r_val w = x_val a")
      case True
      then have "reg_loop regs fpm (a # es) errs = reg_loop regs fpm es errs"
        using Some by (simp add: list_ex_iff)
      then show ?thesis using Cons.IH[of errs] Some True by auto
    next
      case False
      then have "reg_loop regs fpm (a # es) errs
          = reg_loop regs fpm es (errs @ [MissingREG pc (x_rd a) (x_val a) (x_label a)])"
        using Some by (simp add: list_ex_iff)
      then show ?thesis
        using Cons.IH[of "errs @ [MissingREG pc (x_rd a) (x_val a) (x_label a)]"] Some False
        by auto
    qed
  qed
qed

lemma reg_checks_set:
  "set (reg_checks od regs es)
     = {ObjdumpPCNotFound (x_label e) | e.
          e \<in> set es \<and> parse_objdump_for_final_reg_pc od (x_label e) (x_rd e) = None}
       \<union> {MissingREG pc (x_rd e) (x_val e) (x_label e) | e pc.
            e \<in> set es \<and> snd (resolve_loop od es ([], Map.empty)) (x_label e) = Some pc
            \<and> \<not> (\<exists>w\<in>set regs. r_pc w = pc \<and> r_rd w = x_rd e \<and> r_val w = x_val e)}"
proof -
  obtain errors fpm where r: "resolve_loop od es ([], Map.empty) = (errors, fpm)"
    by (cases "resolve_loop od es ([], Map.empty)")
  have e: "set errors = {ObjdumpPCNotFound (x_label e) | e.
          e \<in> set es \<and> parse_objdump_for_final_reg_pc od (x_label e) (x_rd e) = None}"
    using resolve_loop_errors[of od es "[]" Map.empty] r by auto
  show ?thesis
    unfolding reg_checks_def r using e by (simp add: reg_loop_set)
qed








subsection \<open>The stages of main\<close>

lemma sample_listing_t0: "parse_objdump_for_final_reg_pc (Some sample_listing) ''L_LI_T0'' 5 = Some 0x84"
  by code_simp
lemma sample_listing_t1: "parse_objdump_for_final_reg_pc (Some sample_listing) ''L_LI_T1'' 6 = Some 0x90"
  by code_simp
lemma sample_listing_t2: "parse_objdump_for_final_reg_pc (Some sample_listing) ''L_LI_T2'' 7 = Some 0x98"
  by code_simp
lemma sample_listing_t3: "parse_objdump_for_final_reg_pc (Some sample_listing) ''L_LI_T3'' 28 = Some 0x9C"
  by code_simp
lemma sample_listing_t0_1: "parse_objdump_for_final_reg_pc (Some sample_listing) ''L_LI_T0_1'' 5 = Some 0xA0"
  by code_simp

lemma sample_reg_checks: "reg_checks (Some sample_listing) sample_regs REG_EXP = []"
  by (simp add: reg_checks_def REG_EXP_def sample_listing_t0 sample_listing_t1 sample_listing_t2
        sample_listing_t3 sample_listing_t0_1 sample_regs_def)

lemma spurious_check_append:
  "spurious_check obs g errs = errs @ spurious_check obs g []"
  by (auto simp: spurious_check_def Let_def split: list.splits)

lemma misaligned_check_append:
  "misaligned_check obs mp errs = errs @ misaligned_check obs mp []"
  by (simp add: misaligned_check_def split: option.splits)

lemma check_events_Inr:
  "\<exists>e3. check_events obs exps = Inr e3
        \<and> (concat (map (event_errors obs) exps) \<noteq> [] \<longrightarrow>
             e3 = concat (map (event_errors obs) exps))
        \<and> (concat (map (event_errors obs) exps) = [] \<longrightarrow>
             (\<forall>x\<in>set e3. \<exists>i. x = OrderMismatch i (Suc i)))"
proof (cases "concat (map (event_errors obs) exps) = []")
  case True
  then obtain ps where "map (event_position obs) exps = map Some ps"
    using matched_iff by blast
  from check_events_list[OF this] show ?thesis using True by auto
next
  case False
  from check_events_errors[OF False] show ?thesis using False by simp
qed

lemma main_resolved:
  assumes "syms env ''tohost'' = Some th" "syms env ''g_data0'' = Some g0"
    "syms env ''g_data1'' = Some g1" "syms env ''g_buf'' = Some gb" "rc env = 0"
  shows "main env = verify env th g0 g1 gb"
  using assms by (simp add: main_def)

lemma verify_stages:
  assumes "check_events (got env) (EXP (syms env) th g0 g1 gb) = Inr e13"
    and "e45 = spurious_check (got env) g0 []
                 @ misaligned_check (got env) (syms env ''L_MISALIGNED_SW'') []"
  shows "verify env th g0 g1 gb =
           (if e13 @ e45 \<noteq> [] then Fail (e13 @ e45)
            else if reg_checks (objdump env) (got_reg env) REG_EXP \<noteq> []
                 then Fail (reg_checks (objdump env) (got_reg env) REG_EXP) else Pass)"
proof -
  have "misaligned_check (got env) (syms env ''L_MISALIGNED_SW'')
          (spurious_check (got env) g0 e13) = e13 @ e45"
    unfolding assms(2)
    using misaligned_check_append[of "got env" "syms env ''L_MISALIGNED_SW''"
            "spurious_check (got env) g0 e13"]
          spurious_check_append[of "got env" g0 e13]
    by simp
  then show ?thesis
    unfolding verify_def assms(1) by (simp add: Let_def)
qed

lemma sample_syms_data:
  "sample_syms ''tohost'' = Some 0x1000" "sample_syms ''g_data0'' = Some 0x2000"
  "sample_syms ''g_data1'' = Some 0x2004" "sample_syms ''g_buf'' = Some 0x2008"
  "sample_syms ''L_MISALIGNED_SW'' = Some 0x70"
  by (simp_all add: sample_syms_def)

lemma sample_check_events: "check_events sample_trace sample_EXP = Inr []"
  by (simp add: check_events_def sample_trace_def sample_defs skew_offsets_def hit_def)

lemma sample_event_errors: "concat (map (event_errors sample_trace) sample_EXP) = []"
  by (simp add: event_errors_def sample_trace_def sample_defs skew_offsets_def hit_def)

lemma sample_stage45:
  "spurious_check sample_trace 0x2000 [] @ misaligned_check sample_trace (Some 0x70) [] = []"
  by (simp add: spurious_check_def misaligned_check_def sample_trace_def sample_defs)

text \<open>
  Claim C4, as the code has it. With the four data symbols resolved and the runner's
  return code 0: the order check contributes errors only when the matching loop reported
  none; the check of the writes to \<open>g_data0\<close> and the check of the misaligned store always
  run, and their errors are appended to those of the earlier stages; the register checks
  run only when all the earlier stages reported nothing, and then decide the result.
  Every error of a stage that ran is in the report.
\<close>

theorem C4_stage_gating:
  "syms env ''tohost'' = Some th \<and> syms env ''g_data0'' = Some g0
   \<and> syms env ''g_data1'' = Some g1 \<and> syms env ''g_buf'' = Some gb \<and> rc env = 0
   \<and> exps = EXP (syms env) th g0 g1 gb
   \<and> e12 = concat (map (event_errors (got env)) exps)
   \<and> e45 = spurious_check (got env) g0 []
             @ misaligned_check (got env) (syms env ''L_MISALIGNED_SW'') []
   \<and> e6 = reg_checks (objdump env) (got_reg env) REG_EXP \<longrightarrow>
     (e12 \<noteq> [] \<longrightarrow> main env = Fail (e12 @ e45))
     \<and> (e12 = [] \<longrightarrow>
          (\<exists>e3. check_events (got env) exps = Inr e3
             \<and> (\<forall>x\<in>set e3. \<exists>i. x = OrderMismatch i (Suc i))
             \<and> (e3 @ e45 \<noteq> [] \<longrightarrow> main env = Fail (e3 @ e45))
             \<and> (e3 @ e45 = [] \<longrightarrow> main env = (if e6 = [] then Pass else Fail e6))))"
proof (intro impI, elim conjE)
  assume s: "syms env ''tohost'' = Some th" "syms env ''g_data0'' = Some g0"
    "syms env ''g_data1'' = Some g1" "syms env ''g_buf'' = Some gb" "rc env = 0"
  assume x: "exps = EXP (syms env) th g0 g1 gb"
  assume e12: "e12 = concat (map (event_errors (got env)) exps)"
  assume e45: "e45 = spurious_check (got env) g0 []
             @ misaligned_check (got env) (syms env ''L_MISALIGNED_SW'') []"
  assume e6: "e6 = reg_checks (objdump env) (got_reg env) REG_EXP"
  have m: "main env = verify env th g0 g1 gb" using s by (rule main_resolved)
  from check_events_Inr[of "got env" exps] obtain e3 where
    e3: "check_events (got env) exps = Inr e3"
        "e12 \<noteq> [] \<longrightarrow> e3 = e12"
        "e12 = [] \<longrightarrow> (\<forall>x\<in>set e3. \<exists>i. x = OrderMismatch i (Suc i))"
    unfolding e12 by blast
  have v: "main env =
           (if e3 @ e45 \<noteq> [] then Fail (e3 @ e45)
            else if e6 \<noteq> [] then Fail e6 else Pass)"
    unfolding m e6 by (rule verify_stages[OF e3(1)[unfolded x] e45])
  have a: "e12 \<noteq> [] \<longrightarrow> main env = Fail (e12 @ e45)"
    using v e3(2) by simp
  have b: "e12 = [] \<longrightarrow>
          (\<exists>e3. check_events (got env) exps = Inr e3
             \<and> (\<forall>x\<in>set e3. \<exists>i. x = OrderMismatch i (Suc i))
             \<and> (e3 @ e45 \<noteq> [] \<longrightarrow> main env = Fail (e3 @ e45))
             \<and> (e3 @ e45 = [] \<longrightarrow> main env = (if e6 = [] then Pass else Fail e6)))"
  proof
    assume n: "e12 = []"
    have "check_events (got env) exps = Inr e3
             \<and> (\<forall>x\<in>set e3. \<exists>i. x = OrderMismatch i (Suc i))
             \<and> (e3 @ e45 \<noteq> [] \<longrightarrow> main env = Fail (e3 @ e45))
             \<and> (e3 @ e45 = [] \<longrightarrow> main env = (if e6 = [] then Pass else Fail e6))"
      using e3(1) e3(3) n v by simp
    then show "\<exists>e3. check_events (got env) exps = Inr e3
             \<and> (\<forall>x\<in>set e3. \<exists>i. x = OrderMismatch i (Suc i))
             \<and> (e3 @ e45 \<noteq> [] \<longrightarrow> main env = Fail (e3 @ e45))
             \<and> (e3 @ e45 = [] \<longrightarrow> main env = (if e6 = [] then Pass else Fail e6))"
      by (rule exI)
  qed
  show "(e12 \<noteq> [] \<longrightarrow> main env = Fail (e12 @ e45))
     \<and> (e12 = [] \<longrightarrow>
          (\<exists>e3. check_events (got env) exps = Inr e3
             \<and> (\<forall>x\<in>set e3. \<exists>i. x = OrderMismatch i (Suc i))
             \<and> (e3 @ e45 \<noteq> [] \<longrightarrow> main env = Fail (e3 @ e45))
             \<and> (e3 @ e45 = [] \<longrightarrow> main env = (if e6 = [] then Pass else Fail e6))))"
    by (rule conjI[OF a b])
qed

theorem C4_stage_gating_witness: "main sample_env = Pass"
proof -
  have "\<exists>e3. check_events (got sample_env) sample_EXP = Inr e3
             \<and> (\<forall>x\<in>set e3. \<exists>i. x = OrderMismatch i (Suc i))
             \<and> (e3 @ [] \<noteq> [] \<longrightarrow> main sample_env = Fail (e3 @ []))
             \<and> (e3 @ [] = [] \<longrightarrow> main sample_env = (if [] = [] then Pass else Fail []))"
    using C4_stage_gating[where env = sample_env and th = "0x1000" and ?g0.0 = "0x2000"
        and ?g1.0 = "0x2004" and gb = "0x2008" and exps = sample_EXP and ?e12.0 = "[]"
        and ?e45.0 = "[]" and ?e6.0 = "[]"]
      sample_syms_data sample_event_errors sample_stage45 sample_reg_checks
    by (simp add: sample_env_def sample_EXP_def)
  then show ?thesis
    using sample_check_events by (auto simp: sample_env_def)
qed

text \<open>
  Claim C4 as stated fails: on a run whose only memory write sits at the pc of the
  misaligned store, the matching loop reports six missing writes, and the report also
  holds the errors of the two later checks.
\<close>

theorem C4_stage_gating_counterexample:
  "main \<lparr>syms = sample_syms, rc = 0,
         got = [\<lparr>m_pc = 0x70, m_addr = 0x3000, m_data = 0x0, m_mask = 0xF\<rparr>],
         got_reg = [], objdump = None\<rparr>
     = Fail [MissingWrite 0x40 0x2000 0x12345678 0xF,
             MissingWrite 0x48 0x2004 0xABCDEF01 0xF,
             MissingWrite 0x50 0x2008 0x11223344 0xF,
             MissingWrite 0x58 0x2008 0x33441122 0xC,
             MissingWrite 0x60 0x2008 0x22334411 0x2,
             MissingWrite 0x68 0x1000 0x1 0xF,
             ExtraWrite 0,
             UnexpectedMEMW]"
  by (simp add: main_def verify_def check_events_def sample_syms_def EXP_def skew_offsets_def
        hit_def spurious_check_def misaligned_check_def)

lemma symbol_errors_of_events:
  "filter is_symbol_error (concat (map (event_errors obs) exps))
     = map SymbolPCNotFound (filter (\<lambda>e. e_pc e = None) exps)"
  by (induction exps) (auto simp: event_errors_def split: option.splits)

lemma symbol_errors_of_stage45:
  "filter is_symbol_error (spurious_check obs g [] @ misaligned_check obs mp []) = []"
  by (auto simp: spurious_check_def misaligned_check_def Let_def split: list.splits option.splits)

lemma event_errors_mem:
  "e \<in> set exps \<Longrightarrow> x \<in> set (event_errors obs e) \<Longrightarrow>
   x \<in> set (concat (map (event_errors obs) exps))"
  unfolding set_concat set_map by blast

lemma EXP_pcs:
  "map e_pc (EXP pcs th g0 g1 gb)
     = map pcs [''L_SW_GDATA0'', ''L_SW_GDATA1'', ''L_SW_GBUF'', ''L_SH_GBUF_P2'',
                ''L_SB_GBUF_P1'', ''L_SW_TOHOST'']"
  by (simp add: EXP_def)

lemma main_key_error:
  "n \<in> set [''tohost'', ''g_data0'', ''g_data1'', ''g_buf''] \<Longrightarrow> syms env n = None \<Longrightarrow>
   \<exists>n'. main env = KeyError (SymKey n')"
  by (auto simp: main_def split: option.splits)

lemma main_unresolved_labels:
  assumes s: "syms env ''tohost'' = Some th" "syms env ''g_data0'' = Some g0"
    "syms env ''g_data1'' = Some g1" "syms env ''g_buf'' = Some gb" "rc env = 0"
    and x: "exps = EXP (syms env) th g0 g1 gb"
    and u: "\<exists>e\<in>set exps. e_pc e = None"
  shows "\<exists>errs. main env = Fail errs
           \<and> filter is_symbol_error errs
               = map SymbolPCNotFound (filter (\<lambda>e. e_pc e = None) exps)
           \<and> (\<forall>e\<in>set exps. \<forall>p. e_pc e = Some p
                  \<and> try_offsets (got env) e p skew_offsets = None \<longrightarrow>
                 MissingWrite p (e_addr e) (e_data e) (e_mask e) \<in> set errs)"
proof -
  let ?e12 = "concat (map (event_errors (got env)) exps)"
  let ?e45 = "spurious_check (got env) g0 []
                @ misaligned_check (got env) (syms env ''L_MISALIGNED_SW'') []"
  from u obtain e where e: "e \<in> set exps" "e_pc e = None" by blast
  have "SymbolPCNotFound e \<in> set (event_errors (got env) e)"
    using e(2) by (simp add: event_errors_def)
  from event_errors_mem[OF e(1) this]
  have mem: "SymbolPCNotFound e \<in> set ?e12" .
  have ne: "?e12 \<noteq> []"
  proof
    assume "?e12 = []"
    with mem show False by simp
  qed
  have m: "main env = verify env th g0 g1 gb" using s by (rule main_resolved)
  have c: "check_events (got env) (EXP (syms env) th g0 g1 gb) = Inr ?e12"
    using check_events_errors[OF ne] unfolding x .
  have f: "main env = Fail (?e12 @ ?e45)"
    unfolding m verify_stages[OF c refl] using ne by simp
  have a: "filter is_symbol_error (?e12 @ ?e45)
             = map SymbolPCNotFound (filter (\<lambda>e. e_pc e = None) exps)"
  proof -
    have "filter is_symbol_error (?e12 @ ?e45)
            = filter is_symbol_error ?e12 @ filter is_symbol_error ?e45"
      by (rule filter_append)
    then show ?thesis
      unfolding symbol_errors_of_events symbol_errors_of_stage45 by simp
  qed
  have b: "\<forall>e\<in>set exps. \<forall>p. e_pc e = Some p
                  \<and> try_offsets (got env) e p skew_offsets = None \<longrightarrow>
                 MissingWrite p (e_addr e) (e_data e) (e_mask e) \<in> set (?e12 @ ?e45)"
  proof (intro ballI allI impI)
    fix e' p
    assume e': "e' \<in> set exps"
      and h: "e_pc e' = Some p \<and> try_offsets (got env) e' p skew_offsets = None"
    have "MissingWrite p (e_addr e') (e_data e') (e_mask e') \<in> set (event_errors (got env) e')"
      using h by (simp add: event_errors_def)
    from event_errors_mem[OF e' this]
    show "MissingWrite p (e_addr e') (e_data e') (e_mask e') \<in> set (?e12 @ ?e45)"
      by simp
  qed
  from f a b show ?thesis by blast
qed

lemma symbol_errors_of_order:
  "(\<forall>x\<in>set e3. \<exists>i. x = OrderMismatch i (Suc i)) \<Longrightarrow> filter is_symbol_error e3 = []"
  by (auto simp: filter_empty_conv)

lemma symbol_errors_of_reg_checks:
  "filter is_symbol_error (reg_checks od regs es) = []"
  unfolding filter_empty_conv reg_checks_set by auto

lemma no_unexpected_in_events:
  "UnexpectedMEMW \<notin> set (concat (map (event_errors obs) exps))"
  by (auto simp: event_errors_def split: option.splits)

lemma no_unexpected_in_order:
  "(\<forall>x\<in>set e3. \<exists>i. x = OrderMismatch i (Suc i)) \<Longrightarrow> UnexpectedMEMW \<notin> set e3"
  by auto

lemma no_unexpected_in_spurious:
  "UnexpectedMEMW \<notin> set (spurious_check obs g [])"
  by (auto simp: spurious_check_def Let_def split: list.splits)

lemma no_unexpected_in_reg_checks:
  "UnexpectedMEMW \<notin> set (reg_checks od regs es)"
  unfolding reg_checks_set by auto

lemma main_fail_errors:
  assumes s: "syms env ''tohost'' = Some th" "syms env ''g_data0'' = Some g0"
    "syms env ''g_data1'' = Some g1" "syms env ''g_buf'' = Some gb" "rc env = 0"
    and x: "exps = EXP (syms env) th g0 g1 gb"
    and f: "main env = Fail errs"
  shows "filter is_symbol_error errs
           = map SymbolPCNotFound (filter (\<lambda>e. e_pc e = None) exps)
         \<and> (syms env ''L_MISALIGNED_SW'' = None \<longrightarrow> UnexpectedMEMW \<notin> set errs)"
proof -
  let ?e12 = "concat (map (event_errors (got env)) exps)"
  let ?e45 = "spurious_check (got env) g0 []
                @ misaligned_check (got env) (syms env ''L_MISALIGNED_SW'') []"
  let ?e6 = "reg_checks (objdump env) (got_reg env) REG_EXP"
  have m: "main env = verify env th g0 g1 gb" using s by (rule main_resolved)
  from check_events_Inr[of "got env" exps] obtain e3 where
    e3: "check_events (got env) exps = Inr e3"
        "?e12 \<noteq> [] \<longrightarrow> e3 = ?e12"
        "?e12 = [] \<longrightarrow> (\<forall>x\<in>set e3. \<exists>i. x = OrderMismatch i (Suc i))"
    by blast
  have v: "main env =
           (if e3 @ ?e45 \<noteq> [] then Fail (e3 @ ?e45)
            else if ?e6 \<noteq> [] then Fail ?e6 else Pass)"
    unfolding m by (rule verify_stages[OF e3(1)[unfolded x] refl])
  have sym3: "filter is_symbol_error e3 = filter is_symbol_error ?e12"
  proof (cases "?e12 = []")
    case True
    then show ?thesis using e3(3) symbol_errors_of_order[of e3] by simp
  next
    case False
    then show ?thesis using e3(2) by simp
  qed
  have un3: "UnexpectedMEMW \<notin> set e3"
  proof (cases "?e12 = []")
    case True
    then show ?thesis using e3(3) no_unexpected_in_order[of e3] by simp
  next
    case False
    then have "e3 = ?e12" using e3(2) by simp
    then show ?thesis using no_unexpected_in_events[of "got env" exps] by simp
  qed
  have cases: "errs = e3 @ ?e45 \<or> (e3 = [] \<and> errs = ?e6)"
    using v f by (auto split: if_splits)
  have a: "filter is_symbol_error errs = filter is_symbol_error ?e12"
  proof -
    from cases show ?thesis
    proof
      assume "errs = e3 @ ?e45"
      then have "filter is_symbol_error errs
                   = filter is_symbol_error e3 @ filter is_symbol_error ?e45"
        by simp
      then show ?thesis unfolding symbol_errors_of_stage45 sym3 by simp
    next
      assume h: "e3 = [] \<and> errs = ?e6"
      then have "filter is_symbol_error errs = []"
        by (simp add: symbol_errors_of_reg_checks)
      moreover have "filter is_symbol_error ?e12 = []" using sym3 h by simp
      ultimately show ?thesis by simp
    qed
  qed
  have b: "syms env ''L_MISALIGNED_SW'' = None \<longrightarrow> UnexpectedMEMW \<notin> set errs"
  proof
    assume n: "syms env ''L_MISALIGNED_SW'' = None"
    then have e45: "?e45 = spurious_check (got env) g0 []"
      by (simp add: misaligned_check_def)
    from cases show "UnexpectedMEMW \<notin> set errs"
    proof
      assume "errs = e3 @ ?e45"
      then have "errs = e3 @ spurious_check (got env) g0 []" unfolding e45 .
      then show ?thesis
        using un3 no_unexpected_in_spurious[of "got env" g0] by simp
    next
      assume "e3 = [] \<and> errs = ?e6"
      then show ?thesis using no_unexpected_in_reg_checks by simp
    qed
  qed
  show ?thesis
    using a b unfolding symbol_errors_of_events by (rule conjI)
qed

lemma main_ignores_li_labels:
  assumes "l \<in> set [''L_LI_T0_1'', ''L_LI_T0'', ''L_LI_T1'', ''L_LI_T2'', ''L_LI_T3'']"
  shows "main (env\<lparr>syms := (syms env)(l := v)\<rparr>) = main env"
proof -
  let ?env = "env\<lparr>syms := (syms env)(l := v)\<rparr>"
  have ne: "''tohost'' \<noteq> l" "''g_data0'' \<noteq> l" "''g_data1'' \<noteq> l" "''g_buf'' \<noteq> l"
    "''L_SW_GDATA0'' \<noteq> l" "''L_SW_GDATA1'' \<noteq> l" "''L_SW_GBUF'' \<noteq> l"
    "''L_SH_GBUF_P2'' \<noteq> l" "''L_SB_GBUF_P1'' \<noteq> l" "''L_SW_TOHOST'' \<noteq> l"
    "''L_MISALIGNED_SW'' \<noteq> l"
    using assms by auto
  have x: "EXP (syms ?env) th g0 g1 gb = EXP (syms env) th g0 g1 gb" for th g0 g1 gb
    using ne by (simp add: EXP_def)
  have fl: "got ?env = got env" "got_reg ?env = got_reg env" "objdump ?env = objdump env"
    "rc ?env = rc env"
    by simp_all
  have sy: "syms ?env ''tohost'' = syms env ''tohost''"
    "syms ?env ''g_data0'' = syms env ''g_data0''"
    "syms ?env ''g_data1'' = syms env ''g_data1''"
    "syms ?env ''g_buf'' = syms env ''g_buf''"
    "syms ?env ''L_MISALIGNED_SW'' = syms env ''L_MISALIGNED_SW''"
    using ne by simp_all
  have v: "verify ?env th g0 g1 gb = verify env th g0 g1 gb" for th g0 g1 gb
    unfolding verify_def x fl sy by (rule refl)
  show ?thesis
    unfolding main_def v fl sy by (rule refl)
qed

lemma main_runner_failed:
  "syms env ''tohost'' = Some th \<Longrightarrow> syms env ''g_data0'' = Some g0 \<Longrightarrow>
   syms env ''g_data1'' = Some g1 \<Longrightarrow> syms env ''g_buf'' = Some gb \<Longrightarrow> rc env \<noteq> 0 \<Longrightarrow>
   main env = RunnerFailed (rc env)"
  by (simp add: main_def)

text \<open>
  Claim C3, as the code has it. A missing \<open>tohost\<close>, \<open>g_data0\<close>, \<open>g_data1\<close> or \<open>g_buf\<close> ends
  the run with a \<open>KeyError\<close>; with these four resolved, a non-zero return code of the
  runner ends the run with that code and nothing is recorded. The pc of the six expected
  events is looked up under the six store labels. With the four data symbols resolved
  and the runner's return code 0:
  \<^item> when some of the six labels are missing, the run ends with a report that holds one
    \<open>SymbolPCNotFound\<close> error for every expected event without pc, in the order of the
    events; the remaining expected events are still matched, and each one that has no
    match is in the report as a \<open>MissingWrite\<close> error;
  \<^item> in every report, the \<open>SymbolPCNotFound\<close> errors are exactly those of the expected
    events without pc, so no other unresolved symbol is recorded as such an error; and
    when \<open>L_MISALIGNED_SW\<close> is unresolved the report holds no \<open>UnexpectedMEMW\<close> error.
  Whatever the symbol table holds for a label \<open>L_LI_*\<close>, the outcome of the run is the same.
\<close>

theorem C3_unresolved_symbols:
  "(n \<in> set [''tohost'', ''g_data0'', ''g_data1'', ''g_buf''] \<and> syms env n = None \<longrightarrow>
      (\<exists>n'. main env = KeyError (SymKey n')))
   \<and> map e_pc (EXP (syms env) th g0 g1 gb)
       = map (syms env) [''L_SW_GDATA0'', ''L_SW_GDATA1'', ''L_SW_GBUF'', ''L_SH_GBUF_P2'',
                         ''L_SB_GBUF_P1'', ''L_SW_TOHOST'']
   \<and> (syms env ''tohost'' = Some th \<and> syms env ''g_data0'' = Some g0
       \<and> syms env ''g_data1'' = Some g1 \<and> syms env ''g_buf'' = Some gb \<and> rc env = 0
       \<and> exps = EXP (syms env) th g0 g1 gb \<and> (\<exists>e\<in>set exps. e_pc e = None) \<longrightarrow>
       (\<exists>errs. main env = Fail errs
          \<and> filter is_symbol_error errs
              = map SymbolPCNotFound (filter (\<lambda>e. e_pc e = None) exps)
          \<and> (\<forall>e\<in>set exps. \<forall>p. e_pc e = Some p
                 \<and> try_offsets (got env) e p skew_offsets = None \<longrightarrow>
                MissingWrite p (e_addr e) (e_data e) (e_mask e) \<in> set errs)))
   \<and> (syms env ''tohost'' = Some th \<and> syms env ''g_data0'' = Some g0
       \<and> syms env ''g_data1'' = Some g1 \<and> syms env ''g_buf'' = Some gb \<and> rc env = 0
       \<and> exps = EXP (syms env) th g0 g1 gb \<and> main env = Fail errs \<longrightarrow>
       filter is_symbol_error errs
         = map SymbolPCNotFound (filter (\<lambda>e. e_pc e = None) exps)
       \<and> (syms env ''L_MISALIGNED_SW'' = None \<longrightarrow> UnexpectedMEMW \<notin> set errs))
   \<and> (l \<in> set [''L_LI_T0_1'', ''L_LI_T0'', ''L_LI_T1'', ''L_LI_T2'', ''L_LI_T3''] \<longrightarrow>
       main (env\<lparr>syms := (syms env)(l := v)\<rparr>) = main env)
   \<and> (syms env ''tohost'' = Some th \<and> syms env ''g_data0'' = Some g0
       \<and> syms env ''g_data1'' = Some g1 \<and> syms env ''g_buf'' = Some gb \<and> rc env \<noteq> 0 \<longrightarrow>
       main env = RunnerFailed (rc env))"
proof -
  have a: "n \<in> set [''tohost'', ''g_data0'', ''g_data1'', ''g_buf''] \<and> syms env n = None \<longrightarrow>
      (\<exists>n'. main env = KeyError (SymKey n'))"
    using main_key_error[of n env] by blast
  have b: "map e_pc (EXP (syms env) th g0 g1 gb)
       = map (syms env) [''L_SW_GDATA0'', ''L_SW_GDATA1'', ''L_SW_GBUF'', ''L_SH_GBUF_P2'',
                         ''L_SB_GBUF_P1'', ''L_SW_TOHOST'']"
    by (rule EXP_pcs)
  have c: "syms env ''tohost'' = Some th \<and> syms env ''g_data0'' = Some g0
       \<and> syms env ''g_data1'' = Some g1 \<and> syms env ''g_buf'' = Some gb \<and> rc env = 0
       \<and> exps = EXP (syms env) th g0 g1 gb \<and> (\<exists>e\<in>set exps. e_pc e = None) \<longrightarrow>
       (\<exists>errs. main env = Fail errs
          \<and> filter is_symbol_error errs
              = map SymbolPCNotFound (filter (\<lambda>e. e_pc e = None) exps)
          \<and> (\<forall>e\<in>set exps. \<forall>p. e_pc e = Some p
                 \<and> try_offsets (got env) e p skew_offsets = None \<longrightarrow>
                MissingWrite p (e_addr e) (e_data e) (e_mask e) \<in> set errs))"
    using main_unresolved_labels[of env th g0 g1 gb exps] by blast
  have d: "syms env ''tohost'' = Some th \<and> syms env ''g_data0'' = Some g0
       \<and> syms env ''g_data1'' = Some g1 \<and> syms env ''g_buf'' = Some gb \<and> rc env = 0
       \<and> exps = EXP (syms env) th g0 g1 gb \<and> main env = Fail errs \<longrightarrow>
       filter is_symbol_error errs
         = map SymbolPCNotFound (filter (\<lambda>e. e_pc e = None) exps)
       \<and> (syms env ''L_MISALIGNED_SW'' = None \<longrightarrow> UnexpectedMEMW \<notin> set errs)"
    using main_fail_errors[of env th g0 g1 gb exps errs] by blast
  have e: "l \<in> set [''L_LI_T0_1'', ''L_LI_T0'', ''L_LI_T1'', ''L_LI_T2'', ''L_LI_T3''] \<longrightarrow>
       main (env\<lparr>syms := (syms env)(l := v)\<rparr>) = main env"
    using main_ignores_li_labels[of l env v] by blast
  have f: "syms env ''tohost'' = Some th \<and> syms env ''g_data0'' = Some g0
       \<and> syms env ''g_data1'' = Some g1 \<and> syms env ''g_buf'' = Some gb \<and> rc env \<noteq> 0 \<longrightarrow>
       main env = RunnerFailed (rc env)"
    using main_runner_failed[of env th g0 g1 gb] by blast
  show ?thesis by (rule conjI[OF a conjI[OF b conjI[OF c conjI[OF d conjI[OF e f]]]]])
qed

theorem C3_unresolved_symbols_witness:
  "(\<exists>errs. main (sample_env\<lparr>syms := sample_syms(''L_SW_GDATA1'' := None, ''L_SW_GBUF'' := None,
                                                ''L_MISALIGNED_SW'' := None)\<rparr>)
             = Fail errs
      \<and> filter is_symbol_error errs
          = [SymbolPCNotFound
               \<lparr>e_pc = None, e_addr = 0x2004, e_data = 0xABCDEF01, e_mask = 0xF\<rparr>,
             SymbolPCNotFound
               \<lparr>e_pc = None, e_addr = 0x2008, e_data = 0x11223344, e_mask = 0xF\<rparr>]
      \<and> UnexpectedMEMW \<notin> set errs)
   \<and> main (sample_env\<lparr>syms := (syms sample_env)(''L_LI_T0'' := None)\<rparr>) = main sample_env
   \<and> main (sample_env\<lparr>rc := 3\<rparr>) = RunnerFailed 3
   \<and> (\<exists>n'. main (sample_env\<lparr>syms := sample_syms(''g_buf'' := None)\<rparr>) = KeyError (SymKey n'))"
proof -
  let ?env = "sample_env\<lparr>syms := sample_syms(''L_SW_GDATA1'' := None, ''L_SW_GBUF'' := None,
                                           ''L_MISALIGNED_SW'' := None)\<rparr>"
  let ?exps = "EXP (syms ?env) 0x1000 0x2000 0x2004 0x2008"
  have data: "syms ?env ''tohost'' = Some 0x1000" "syms ?env ''g_data0'' = Some 0x2000"
    "syms ?env ''g_data1'' = Some 0x2004" "syms ?env ''g_buf'' = Some 0x2008" "rc ?env = 0"
    by (simp_all add: sample_env_def sample_syms_def)
  have none: "\<exists>e\<in>set ?exps. e_pc e = None"
    by (simp add: sample_env_def sample_syms_def EXP_def)
  have prem: "syms ?env ''tohost'' = Some 0x1000 \<and> syms ?env ''g_data0'' = Some 0x2000
       \<and> syms ?env ''g_data1'' = Some 0x2004 \<and> syms ?env ''g_buf'' = Some 0x2008
       \<and> rc ?env = 0 \<and> ?exps = EXP (syms ?env) 0x1000 0x2000 0x2004 0x2008
       \<and> (\<exists>e\<in>set ?exps. e_pc e = None)"
    using data none by simp
  from C3_unresolved_symbols[where env = ?env and exps = ?exps, THEN conjunct2, THEN conjunct2,
      THEN conjunct1, rule_format, OF prem]
  obtain errs where errs: "main ?env = Fail errs"
    "filter is_symbol_error errs = map SymbolPCNotFound (filter (\<lambda>e. e_pc e = None) ?exps)"
    by blast
  have val: "map SymbolPCNotFound (filter (\<lambda>e. e_pc e = None) ?exps)
      = [SymbolPCNotFound
              \<lparr>e_pc = None, e_addr = 0x2004, e_data = 0xABCDEF01, e_mask = 0xF\<rparr>,
            SymbolPCNotFound
              \<lparr>e_pc = None, e_addr = 0x2008, e_data = 0x11223344, e_mask = 0xF\<rparr>]"
    by (simp add: sample_env_def sample_syms_def EXP_def)
  have prem2: "syms ?env ''tohost'' = Some 0x1000 \<and> syms ?env ''g_data0'' = Some 0x2000
       \<and> syms ?env ''g_data1'' = Some 0x2004 \<and> syms ?env ''g_buf'' = Some 0x2008
       \<and> rc ?env = 0 \<and> ?exps = EXP (syms ?env) 0x1000 0x2000 0x2004 0x2008
       \<and> main ?env = Fail errs"
    using data errs(1) by simp
  have mis: "syms ?env ''L_MISALIGNED_SW'' = None"
    by (simp add: sample_env_def)
  have un: "UnexpectedMEMW \<notin> set errs"
    using C3_unresolved_symbols[where env = ?env and exps = ?exps and errs = errs,
        THEN conjunct2, THEN conjunct2, THEN conjunct2, THEN conjunct1, rule_format, OF prem2]
      mis by blast
  have p1: "\<exists>errs. main ?env = Fail errs
      \<and> filter is_symbol_error errs
          = [SymbolPCNotFound
               \<lparr>e_pc = None, e_addr = 0x2004, e_data = 0xABCDEF01, e_mask = 0xF\<rparr>,
             SymbolPCNotFound
               \<lparr>e_pc = None, e_addr = 0x2008, e_data = 0x11223344, e_mask = 0xF\<rparr>]
      \<and> UnexpectedMEMW \<notin> set errs"
    using errs val un by auto
  have p2: "main (sample_env\<lparr>syms := (syms sample_env)(''L_LI_T0'' := None)\<rparr>) = main sample_env"
    by (rule C3_unresolved_symbols[THEN conjunct2, THEN conjunct2, THEN conjunct2,
          THEN conjunct2, THEN conjunct1, rule_format]) simp
  have p3: "main (sample_env\<lparr>rc := 3\<rparr>) = RunnerFailed 3"
    using C3_unresolved_symbols[where env = "sample_env\<lparr>rc := 3\<rparr>" and th = "0x1000"
        and ?g0.0 = "0x2000" and ?g1.0 = "0x2004" and gb = "0x2008",
        THEN conjunct2, THEN conjunct2, THEN conjunct2, THEN conjunct2, THEN conjunct2]
    by (simp add: sample_env_def sample_syms_def)
  have p4: "\<exists>n'. main (sample_env\<lparr>syms := sample_syms(''g_buf'' := None)\<rparr>) = KeyError (SymKey n')"
    by (rule C3_unresolved_symbols[where n = "''g_buf''", THEN conjunct1, rule_format])
       (simp add: sample_env_def)
  show ?thesis by (rule conjI[OF p1 conjI[OF p2 conjI[OF p3 p4]]])
qed

lemma sample_without_misaligned:
  "main (sample_env\<lparr>syms := sample_syms(''L_MISALIGNED_SW'' := None)\<rparr>) = Pass"
proof -
  let ?env = "sample_env\<lparr>syms := sample_syms(''L_MISALIGNED_SW'' := None)\<rparr>"
  have m: "main ?env = verify ?env 0x1000 0x2000 0x2004 0x2008"
    by (rule main_resolved) (simp_all add: sample_env_def sample_syms_def)
  have x: "EXP (syms ?env) 0x1000 0x2000 0x2004 0x2008 = sample_EXP"
    by (simp add: sample_env_def sample_EXP_def EXP_def sample_syms_def)
  have c: "check_events (got ?env) (EXP (syms ?env) 0x1000 0x2000 0x2004 0x2008) = Inr []"
    unfolding x using sample_check_events by (simp add: sample_env_def)
  have s: "[] = spurious_check (got ?env) 0x2000 []
                 @ misaligned_check (got ?env) (syms ?env ''L_MISALIGNED_SW'') []"
    by (simp add: sample_env_def spurious_check_def misaligned_check_def sample_trace_def
          sample_defs)
  show ?thesis
    unfolding m verify_stages[OF c s] using sample_reg_checks by (simp add: sample_env_def)
qed

text \<open>
  Claim C3 as stated fails for symbols other than the six store labels: without \<open>tohost\<close>
  the run ends with a \<open>KeyError\<close> and reports nothing, and without \<open>L_MISALIGNED_SW\<close> (the
  labels \<open>L_LI_*\<close> are in no symbol table of these runs) the sample run still passes, with
  no error recorded for the missing symbols.
\<close>

theorem C3_unresolved_symbols_counterexample:
  "main (sample_env\<lparr>syms := sample_syms(''tohost'' := None)\<rparr>) = KeyError (SymKey ''tohost'')
   \<and> main (sample_env\<lparr>syms := sample_syms(''L_MISALIGNED_SW'' := None)\<rparr>) = Pass"
  using sample_without_misaligned by (simp add: main_def sample_env_def)

end
